theory Spec2Isabelle
  imports Main "HOL-Library.AList" "HOL-Library.Sublist"
begin

section \<open>Exceptions\<close>

text \<open>
  The relay (\<^verbatim>\<open>script.py\<close>) signals every failure by a Python exception and decides
  what happens next by the class named in an \<^verbatim>\<open>except\<close> clause. The classes that the
  code or its collaborators raise are the constructors below. \<^verbatim>\<open>except Exception\<close>
  catches every one of them but \<^verbatim>\<open>KeyboardInterrupt\<close>, which derives from
  \<^verbatim>\<open>BaseException\<close> only.
\<close>

datatype exn =
    KeyboardInterrupt
  | FileNotFoundError
  | PermissionError
  | JSONDecodeError
  | UnicodeDecodeError
  | AttributeError
  | TypeError
  | ValueError
  | KeyError
  | IndexError
  | RecursionError
  | BlockNotFound
  | ConnectionError
  | HTTPError
  | OtherException string

fun is_Exception :: "exn \<Rightarrow> bool" where
  "is_Exception KeyboardInterrupt = False"
| "is_Exception _ = True"

section \<open>Configuration\<close>

text \<open>The entries of \<^verbatim>\<open>CONFIG\<close> that the listener reads while it runs.\<close>

record config =
  start_block :: int
  poll_interval_seconds :: int
  block_processing_batch_size :: int

section \<open>Gas price\<close>

text \<open>
  \<^verbatim>\<open>Web3.to_wei(n, 'gwei')\<close> for a whole number \<open>n\<close>: the product with \<open>10^9\<close>, refused
  with \<^verbatim>\<open>ValueError\<close> outside \<open>0 .. 2^256 - 1\<close>.
\<close>

definition to_wei_gwei :: "int \<Rightarrow> exn + int" where
  "to_wei_gwei n =
     (let r = n * 1000000000
      in if r < 0 \<or> r > 2 ^ 256 - 1 then Inl ValueError else Inr r)"

text \<open>
  What the two collaborators of \<^verbatim>\<open>_get_gas_price\<close> answer: \<open>oracle_fast\<close> is the
  outcome of \<^verbatim>\<open>requests.get\<close>, \<^verbatim>\<open>raise_for_status\<close> and \<^verbatim>\<open>response.json()['fast']\<close>
  (the fast tier as a whole number of gwei), \<open>node_gas_price\<close> the outcome of
  \<^verbatim>\<open>web3.eth.gas_price\<close> on the destination node.
\<close>

record gas_env =
  oracle_fast :: "exn + int"
  node_gas_price :: "exn + int"

text \<open>The requests that the relay code itself sends to the destination node.\<close>

datatype dest_rpc =
    EthGasPrice
  | EthGetTransactionCount string
  | EthSendRawTransaction string

text \<open>The \<^verbatim>\<open>try\<close> block of \<^verbatim>\<open>_get_gas_price\<close>: the oracle's fast tier, in wei.\<close>

definition oracle_price :: "gas_env \<Rightarrow> exn + int" where
  "oracle_price g = (case oracle_fast g of Inl e \<Rightarrow> Inl e | Inr fast \<Rightarrow> to_wei_gwei fast)"

text \<open>
  \<^verbatim>\<open>EventProcessor._get_gas_price\<close>. The first argument is the truth value of
  \<^verbatim>\<open>self.dest_connector.web3\<close>. The node is asked inside the \<^verbatim>\<open>except\<close> handler, so
  whatever that query raises leaves the function.
\<close>

definition get_gas_price :: "bool \<Rightarrow> gas_env \<Rightarrow> (exn + int) \<times> dest_rpc list" where
  "get_gas_price web3 g =
     (case oracle_price g of
        Inr wei \<Rightarrow> (Inr wei, [])
      | Inl e \<Rightarrow>
          if is_Exception e
          then (if web3 then (node_gas_price g, [EthGasPrice]) else (to_wei_gwei 20, []))
          else (Inl e, []))"

section \<open>Events and the unlock transaction\<close>

text \<open>A decoded \<^verbatim>\<open>TokensLocked\<close> log entry, with the fields of the ABI.\<close>

record event =
  ev_from :: string
  ev_toChainId :: int
  ev_amount :: int
  ev_nonce :: int
  transactionHash :: string
  blockNumber :: int

text \<open>
  The call \<^verbatim>\<open>unlockTokens(recipient, amount, sourceNonce)\<close> together with the
  transaction parameters given to \<^verbatim>\<open>build_transaction\<close>.
\<close>

record unlock_tx =
  recipient :: string
  amount :: int
  sourceNonce :: int
  tx_from :: string
  tx_nonce :: int
  gas :: int
  gasPrice :: int

text \<open>
  The fields of \<^verbatim>\<open>EventProcessor\<close> that \<^verbatim>\<open>process_event\<close> tests: whether the
  contract handle and the web3 handle are there, and the relayer account's address.
\<close>

record processor =
  dest_bridge_contract :: bool
  relayer_account :: "string option"
  dest_web3 :: bool

text \<open>What the collaborators answer while one event is processed, in call order.\<close>

record proc_env =
  unlock_call :: "exn option"
  transaction_count :: "exn + int"
  gas_outcomes :: gas_env
  build_transaction :: "exn option"
  sign_transaction :: "exn + string"

text \<open>The body of the \<^verbatim>\<open>try\<close> block of \<^verbatim>\<open>process_event\<close>.\<close>

definition build_and_sign ::
  "string \<Rightarrow> bool \<Rightarrow> proc_env \<Rightarrow> event \<Rightarrow> (exn + unlock_tx \<times> string) \<times> dest_rpc list" where
  "build_and_sign addr web3 env ev =
     (case unlock_call env of
        Some e \<Rightarrow> (Inl e, [])
      | None \<Rightarrow>
         (case transaction_count env of
            Inl e \<Rightarrow> (Inl e, [EthGetTransactionCount addr])
          | Inr n \<Rightarrow>
             (case get_gas_price web3 (gas_outcomes env) of
                (Inl e, cs) \<Rightarrow> (Inl e, EthGetTransactionCount addr # cs)
              | (Inr price, cs) \<Rightarrow>
                 (case build_transaction env of
                    Some e \<Rightarrow> (Inl e, EthGetTransactionCount addr # cs)
                  | None \<Rightarrow>
                     (let tx = \<lparr>recipient = ev_from ev, amount = ev_amount ev,
                                sourceNonce = ev_nonce ev, tx_from = addr, tx_nonce = n,
                                gas = 200000, gasPrice = price\<rparr>
                      in case sign_transaction env of
                           Inl e \<Rightarrow> (Inl e, EthGetTransactionCount addr # cs)
                         | Inr h \<Rightarrow> (Inr (tx, h), EthGetTransactionCount addr # cs))))))"

text \<open>
  How the processing of one event ends: the destination side was never set up, an
  exception was caught and logged, or the transaction was signed and its hash logged.
\<close>

datatype proc_outcome =
    NotInitialized
  | Failed exn
  | Signed unlock_tx string

text \<open>\<^verbatim>\<open>EventProcessor.process_event\<close>: \<open>Inl\<close> is an exception that leaves it.\<close>

definition process_event ::
  "processor \<Rightarrow> proc_env \<Rightarrow> event \<Rightarrow> (exn + proc_outcome) \<times> dest_rpc list" where
  "process_event p env ev =
     (case relayer_account p of
        None \<Rightarrow> (Inr NotInitialized, [])
      | Some addr \<Rightarrow>
          if \<not> dest_bridge_contract p \<or> \<not> dest_web3 p then (Inr NotInitialized, [])
          else
            (case build_and_sign addr (dest_web3 p) env ev of
               (Inr (tx, h), cs) \<Rightarrow> (Inr (Signed tx h), cs)
             | (Inl e, cs) \<Rightarrow>
                 if is_Exception e then (Inr (Failed e), cs) else (Inl e, cs)))"

text \<open>
  No collaborator of \<^verbatim>\<open>process_event\<close> is cut short by the shutdown signal: whatever
  fails, fails with an \<^verbatim>\<open>Exception\<close>.
\<close>

definition no_signal :: "proc_env \<Rightarrow> bool" where
  "no_signal env =
     (unlock_call env \<noteq> Some KeyboardInterrupt \<and>
      transaction_count env \<noteq> Inl KeyboardInterrupt \<and>
      oracle_fast (gas_outcomes env) \<noteq> Inl KeyboardInterrupt \<and>
      node_gas_price (gas_outcomes env) \<noteq> Inl KeyboardInterrupt \<and>
      build_transaction env \<noteq> Some KeyboardInterrupt \<and>
      sign_transaction env \<noteq> Inl KeyboardInterrupt)"

section \<open>The checkpoint file\<close>

text \<open>
  \<^verbatim>\<open>json.load\<close> and \<^verbatim>\<open>json.dump\<close> belong to Python's library; the state file is
  therefore represented by what \<^verbatim>\<open>json.load\<close> makes of its text: a JSON value, or the
  exception raised on a text that does not parse. Numbers with a fraction or an exponent
  carry their literal only.
\<close>

datatype json =
    JNull
  | JBool bool
  | JInt int
  | JFloat string
  | JStr string
  | JArr "json list"
  | JObj "(string \<times> json) list"

text \<open>\<open>None\<close>: there is no file at the configured path.\<close>

type_synonym disk_file = "(exn + json) option"

text \<open>\<^verbatim>\<open>state.get(key, default)\<close>; only a \<^verbatim>\<open>dict\<close> has the method.\<close>

definition state_get :: "json \<Rightarrow> string \<Rightarrow> json \<Rightarrow> exn + json" where
  "state_get state key dflt =
     (case state of
        JObj kvs \<Rightarrow> (case map_of kvs key of Some v \<Rightarrow> Inr v | None \<Rightarrow> Inr dflt)
      | _ \<Rightarrow> Inl AttributeError)"

text \<open>
  Python's \<^verbatim>\<open>int(v)\<close> on a decoded JSON value. What it makes of a string or of a
  float is the built-in's business and is taken as the parameter \<open>conv\<close>.
\<close>

definition py_int :: "(json \<Rightarrow> exn + int) \<Rightarrow> json \<Rightarrow> exn + int" where
  "py_int conv v =
     (case v of
        JInt n \<Rightarrow> Inr n
      | JBool b \<Rightarrow> Inr (if b then 1 else 0)
      | JNull \<Rightarrow> Inl TypeError
      | JArr _ \<Rightarrow> Inl TypeError
      | JObj _ \<Rightarrow> Inl TypeError
      | JStr _ \<Rightarrow> conv v
      | JFloat _ \<Rightarrow> conv v)"

text \<open>
  The \<^verbatim>\<open>try\<close> block of \<^verbatim>\<open>_load_state\<close>. \<open>open_err\<close> is an error of \<^verbatim>\<open>open\<close> other
  than the file's absence (a permission error, say).
\<close>

definition read_state ::
  "(json \<Rightarrow> exn + int) \<Rightarrow> exn option \<Rightarrow> disk_file \<Rightarrow> int \<Rightarrow> exn + int" where
  "read_state conv open_err f start =
     (case open_err of
        Some e \<Rightarrow> Inl e
      | None \<Rightarrow>
         (case f of
            None \<Rightarrow> Inl FileNotFoundError
          | Some (Inl e) \<Rightarrow> Inl e
          | Some (Inr state) \<Rightarrow>
             (case state_get state ''last_processed_block'' (JInt start) of
                Inl e \<Rightarrow> Inl e
              | Inr v \<Rightarrow> py_int conv v)))"

text \<open>\<^verbatim>\<open>EventListener._load_state\<close>.\<close>

definition load_state ::
  "(json \<Rightarrow> exn + int) \<Rightarrow> exn option \<Rightarrow> disk_file \<Rightarrow> config \<Rightarrow> exn + int" where
  "load_state conv open_err f cfg =
     (case read_state conv open_err f (start_block cfg) of
        Inr last_block \<Rightarrow> Inr last_block
      | Inl e \<Rightarrow>
          if e = FileNotFoundError \<or> e = JSONDecodeError then Inr (start_block cfg)
          else Inl e)"

text \<open>
  How a write of the state file goes: it succeeds, \<^verbatim>\<open>open(.., 'w')\<close> raises and the
  file stays as it was, or \<^verbatim>\<open>json.dump\<close> raises after the file was truncated, which
  leaves a text that does not parse.
\<close>

datatype save_outcome =
    Saved
  | OpenFails exn
  | WriteFails exn

text \<open>\<^verbatim>\<open>EventListener._save_state\<close>, with the value of \<^verbatim>\<open>self.last_processed_block\<close>.\<close>

definition save_state :: "save_outcome \<Rightarrow> int \<Rightarrow> disk_file \<Rightarrow> exn option \<times> disk_file" where
  "save_state out last_block f =
     (case out of
        Saved \<Rightarrow> (None, Some (Inr (JObj [(''last_processed_block'', JInt last_block)])))
      | OpenFails e \<Rightarrow> (Some e, f)
      | WriteFails e \<Rightarrow> (Some e, Some (Inl JSONDecodeError)))"

text \<open>The checkpoint that the file holds, when it holds one.\<close>

definition persisted :: "disk_file \<Rightarrow> int option" where
  "persisted f =
     (case f of
        Some (Inr (JObj kvs)) \<Rightarrow>
          (case map_of kvs ''last_processed_block'' of Some (JInt n) \<Rightarrow> Some n | _ \<Rightarrow> None)
      | _ \<Rightarrow> None)"

section \<open>The listener\<close>

text \<open>
  The mutable state of \<^verbatim>\<open>EventListener\<close> and the file it owns. The contract handle
  is made once in \<^verbatim>\<open>__init__\<close> and is \<^verbatim>\<open>None\<close> when the source chain was down then.
\<close>

record listener =
  last_processed_block :: int
  state_file :: disk_file
  source_bridge_contract :: bool
  event_processor :: processor

text \<open>What a cycle does to the outside, in order.\<close>

datatype effect =
    Connect
  | Sleep int
  | GetLogs int int
  | Process event "exn + proc_outcome" "dest_rpc list"
  | SaveState int

text \<open>
  What the outside answers during one cycle of \<^verbatim>\<open>run\<close>. The shutdown signal
  (\<^verbatim>\<open>KeyboardInterrupt\<close>) is modelled where the process waits: in the three sleeps and,
  as an outcome of a collaborator, in every call that yields an \<open>exn\<close>.
\<close>

record cycle_env =
  is_connected :: bool
  latest_block_number :: "int option"
  get_logs :: "exn + event list"
  proc_envs :: "nat \<Rightarrow> proc_env"
  save_result :: save_outcome
  signal_in_retry_sleep :: bool
  signal_in_poll_sleep :: bool
  signal_in_backoff_sleep :: bool

text \<open>\<^verbatim>\<open>time.sleep(secs)\<close>: a negative length is a \<^verbatim>\<open>ValueError\<close>.\<close>

definition sleep :: "int \<Rightarrow> bool \<Rightarrow> exn option \<times> effect list" where
  "sleep secs signal =
     (if secs < 0 then (Some ValueError, [])
      else if signal then (Some KeyboardInterrupt, [Sleep secs])
      else (None, [Sleep secs]))"

text \<open>
  The \<^verbatim>\<open>for\<close> loop of \<^verbatim>\<open>_process_block_range\<close>; the \<open>i\<close>-th call of
  \<^verbatim>\<open>process_event\<close> meets the outcomes \<open>envs i\<close>.
\<close>

fun process_events ::
  "processor \<Rightarrow> (nat \<Rightarrow> proc_env) \<Rightarrow> nat \<Rightarrow> event list \<Rightarrow> exn option \<times> effect list" where
  "process_events p envs i [] = (None, [])"
| "process_events p envs i (ev # evs) =
     (case process_event p (envs i) ev of
        (Inl e, cs) \<Rightarrow> (Some e, [Process ev (Inl e) cs])
      | (Inr out, cs) \<Rightarrow>
          (case process_events p envs (Suc i) evs of
             (r, effs) \<Rightarrow> (r, Process ev (Inr out) cs # effs)))"

text \<open>The \<^verbatim>\<open>try\<close> block of \<^verbatim>\<open>_process_block_range\<close>.\<close>

definition scan_range :: "cycle_env \<Rightarrow> listener \<Rightarrow> exn option \<times> effect list" where
  "scan_range env st =
     (case get_logs env of
        Inl e \<Rightarrow> (Some e, [])
      | Inr events \<Rightarrow>
          if events = [] then (None, [])
          else process_events (event_processor st) (proc_envs env) 0 events)"

text \<open>\<^verbatim>\<open>EventListener._process_block_range\<close>.\<close>

definition process_block_range ::
  "config \<Rightarrow> cycle_env \<Rightarrow> listener \<Rightarrow> int \<Rightarrow> int \<Rightarrow> exn option \<times> effect list" where
  "process_block_range cfg env st from_block to_block =
     (if \<not> source_bridge_contract st then (None, [])
      else
        (case scan_range env st of
           (None, effs) \<Rightarrow> (None, GetLogs from_block to_block # effs)
         | (Some e, effs) \<Rightarrow>
             if e = BlockNotFound then
               (case sleep (poll_interval_seconds cfg) (signal_in_retry_sleep env) of
                  (r, s) \<Rightarrow> (r, GetLogs from_block to_block # effs @ s))
             else if is_Exception e then (None, GetLogs from_block to_block # effs)
             else (Some e, GetLogs from_block to_block # effs)))"

text \<open>The range that a cycle scans: \<^verbatim>\<open>from_block\<close> and \<^verbatim>\<open>to_block\<close> of \<^verbatim>\<open>run\<close>.\<close>

definition block_range :: "config \<Rightarrow> int \<Rightarrow> int \<Rightarrow> int \<times> int" where
  "block_range cfg last_block latest_block =
     (let from_block = last_block + 1;
          to_block = min latest_block (from_block + block_processing_batch_size cfg - 1)
      in (from_block, to_block))"

text \<open>
  The \<^verbatim>\<open>try\<close> block of one pass through the \<^verbatim>\<open>while\<close> loop of \<^verbatim>\<open>run\<close>: the exception
  that ends it, if any, the listener as the pass leaves it, and its effects.
\<close>

definition run_body :: "config \<Rightarrow> cycle_env \<Rightarrow> listener \<Rightarrow> exn option \<times> listener \<times> effect list" where
  "run_body cfg env st =
     (if \<not> is_connected env then
        (case sleep (poll_interval_seconds cfg) (signal_in_poll_sleep env) of
           (r, s) \<Rightarrow> (r, st, Connect # s))
      else
        (case latest_block_number env of
           None \<Rightarrow>
             (case sleep (poll_interval_seconds cfg) (signal_in_poll_sleep env) of
                (r, s) \<Rightarrow> (r, st, s))
         | Some latest_block \<Rightarrow>
             (case block_range cfg (last_processed_block st) latest_block of
                (from_block, to_block) \<Rightarrow>
                  if from_block > latest_block then
                    (case sleep (poll_interval_seconds cfg) (signal_in_poll_sleep env) of
                       (r, s) \<Rightarrow> (r, st, s))
                  else
                    (case process_block_range cfg env st from_block to_block of
                       (Some e, effs) \<Rightarrow> (Some e, st, effs)
                     | (None, effs) \<Rightarrow>
                         (case save_state (save_result env) to_block (state_file st) of
                            (Some e, f) \<Rightarrow>
                              (Some e, st\<lparr>last_processed_block := to_block, state_file := f\<rparr>, effs)
                          | (None, f) \<Rightarrow>
                              (case sleep (poll_interval_seconds cfg) (signal_in_poll_sleep env) of
                                 (r, s) \<Rightarrow>
                                   (r, st\<lparr>last_processed_block := to_block, state_file := f\<rparr>,
                                    effs @ SaveState to_block # s)))))))"

text \<open>
  How a pass ends: the loop goes on, the loop is left by \<^verbatim>\<open>break\<close>, or an exception
  leaves \<^verbatim>\<open>run\<close>.
\<close>

datatype cycle_result =
    Continue
  | Break
  | Propagate exn

text \<open>One pass through the loop of \<^verbatim>\<open>run\<close>, with its two \<^verbatim>\<open>except\<close> clauses.\<close>

definition run_cycle ::
  "config \<Rightarrow> cycle_env \<Rightarrow> listener \<Rightarrow> cycle_result \<times> listener \<times> effect list" where
  "run_cycle cfg env st =
     (case run_body cfg env st of
        (None, st', effs) \<Rightarrow> (Continue, st', effs)
      | (Some e, st', effs) \<Rightarrow>
          if e = KeyboardInterrupt then (Break, st', effs)
          else if is_Exception e then
            (case sleep (poll_interval_seconds cfg * 2) (signal_in_backoff_sleep env) of
               (None, s) \<Rightarrow> (Continue, st', effs @ s)
             | (Some e', s) \<Rightarrow> (Propagate e', st', effs @ s))
          else (Propagate e, st', effs))"

text \<open>
  \<^verbatim>\<open>EventListener.run\<close> for as many passes as there are environments: the loop itself
  has no exit but \<^verbatim>\<open>break\<close> and an exception.
\<close>

fun run :: "config \<Rightarrow> cycle_env list \<Rightarrow> listener \<Rightarrow> cycle_result \<times> listener \<times> effect list" where
  "run cfg [] st = (Continue, st, [])"
| "run cfg (env # envs) st =
     (case run_cycle cfg env st of
        (Continue, st', effs) \<Rightarrow>
          (case run cfg envs st' of (r, st'', effs') \<Rightarrow> (r, st'', effs @ effs'))
      | (r, st', effs) \<Rightarrow> (r, st', effs))"

section \<open>The configuration loader\<close>

text \<open>
  \<^verbatim>\<open>loader.py\<close> works on what \<^verbatim>\<open>yaml.safe_load\<close> and \<^verbatim>\<open>os.environ\<close> hand it. A
  configuration value is a dictionary from string keys to values, kept in insertion
  order, or anything else (a leaf).
\<close>

datatype 'a cfg = Leaf 'a | Dict "(string \<times> 'a cfg) list"

type_synonym 'a dict = "(string \<times> 'a cfg) list"

text \<open>
  \<^verbatim>\<open>ConfigLoader._deep_merge\<close>, read as a function of the two dictionaries: the first
  argument is \<^verbatim>\<open>merged\<close>, which starts as the copy of \<^verbatim>\<open>base\<close>, the second what is left
  of \<^verbatim>\<open>override.items()\<close>.
\<close>

function deep_merge :: "'a dict \<Rightarrow> 'a dict \<Rightarrow> 'a dict" where
  "deep_merge merged [] = merged"
| "deep_merge merged ((key, Leaf x) # override) =
     deep_merge (AList.update key (Leaf x) merged) override"
| "deep_merge merged ((key, Dict v) # override) =
     (case map_of merged key of
        Some (Dict m) \<Rightarrow> deep_merge (AList.update key (Dict (deep_merge m v)) merged) override
      | _ \<Rightarrow> deep_merge (AList.update key (Dict v) merged) override)"
  by pat_completeness auto
termination
  by (relation "measure (\<lambda>(merged, override). size_list (size_prod (\<lambda>k. 0) size) override)")
    auto

text \<open>A Python dictionary holds a key once, at every level.\<close>

fun wf_dict :: "'a dict \<Rightarrow> bool" where
  "wf_dict d =
     (distinct (map fst d) \<and>
      (\<forall>c \<in> set (map snd d). case c of Leaf x \<Rightarrow> True | Dict d' \<Rightarrow> wf_dict d'))"

declare wf_dict.simps [simp del]

text \<open>The value at a key path, \<^verbatim>\<open>d[k1][k2]...[kn]\<close>, if the path leads through dictionaries.\<close>

fun get_path :: "'a dict \<Rightarrow> string list \<Rightarrow> 'a cfg option" where
  "get_path d [] = None"
| "get_path d [k] = map_of d k"
| "get_path d (k # p) = (case map_of d k of Some (Dict d') \<Rightarrow> get_path d' p | _ \<Rightarrow> None)"

text \<open>A proper prefix of the path holds a leaf: the dictionary settles the path as absent.\<close>

fun blocked :: "'a dict \<Rightarrow> string list \<Rightarrow> bool" where
  "blocked d [] = False"
| "blocked d [k] = False"
| "blocked d (k # p) =
     (case map_of d k of
        Some (Leaf x) \<Rightarrow> True
      | Some (Dict d') \<Rightarrow> blocked d' p
      | None \<Rightarrow> False)"

text \<open>
  The values that YAML and \<^verbatim>\<open>_parse_value\<close> produce. A float carries its text only.
\<close>

datatype scalar = VNone | VBool bool | VInt int | VFloat string | VStr string | VSeq "scalar list"

text \<open>\<^verbatim>\<open>str.lower\<close> on ASCII text.\<close>

definition lower_char :: "char \<Rightarrow> char" where
  "lower_char c =
     (let n = of_char c :: nat in if 65 \<le> n \<and> n \<le> 90 then char_of (n + 32) else c)"

definition lower :: "string \<Rightarrow> string" where
  "lower s = map lower_char s"

text \<open>
  \<^verbatim>\<open>s.split("__")\<close>: the text is cut at every double underscore, read from the left;
  the first argument is the piece collected so far.
\<close>

fun split_dunder :: "string \<Rightarrow> string \<Rightarrow> string list" where
  "split_dunder seg [] = [seg]"
| "split_dunder seg [c] = [seg @ [c]]"
| "split_dunder seg (c # c' # cs) =
     (if c = CHR ''_'' \<and> c' = CHR ''_'' then seg # split_dunder [] cs
      else split_dunder (seg @ [c]) (c' # cs))"

definition startswith :: "string \<Rightarrow> string \<Rightarrow> bool" where
  "startswith key pre = (take (length pre) key = pre)"

text \<open>\<^verbatim>\<open>key[len(self.env_prefix):].lower().split("__")\<close>.\<close>

definition env_path :: "string \<Rightarrow> string \<Rightarrow> string list" where
  "env_path pre key = split_dunder [] (lower (drop (length pre) key))"

text \<open>
  Python's \<^verbatim>\<open>int(s)\<close> and \<^verbatim>\<open>float(s)\<close> on a string are built-ins; which strings they
  accept, and the integer read, are parameters.
\<close>

record py_parsers =
  int_of_str :: "string \<Rightarrow> int option"
  is_float_str :: "string \<Rightarrow> bool"

text \<open>\<^verbatim>\<open>ConfigLoader._parse_value\<close>.\<close>

definition parse_value :: "py_parsers \<Rightarrow> string \<Rightarrow> scalar" where
  "parse_value py v =
     (if lower v = ''true'' \<or> lower v = ''false'' then VBool (lower v = ''true'')
      else (case int_of_str py v of
              Some n \<Rightarrow> VInt n
            | None \<Rightarrow> if is_float_str py v then VFloat v else VStr v))"

text \<open>
  The walk of \<^verbatim>\<open>_load_from_env\<close> along one path: missing dictionaries are created,
  the last key is assigned, and a leaf met on the way is a \<^verbatim>\<open>TypeError\<close>.
\<close>

fun set_path :: "'a dict \<Rightarrow> string list \<Rightarrow> 'a \<Rightarrow> exn + 'a dict" where
  "set_path d [] x = Inl IndexError"
| "set_path d [k] x = Inr (AList.update k (Leaf x) d)"
| "set_path d (k # p) x =
     (case map_of d k of
        None \<Rightarrow>
          (case set_path [] p x of
             Inl e \<Rightarrow> Inl e
           | Inr d' \<Rightarrow> Inr (AList.update k (Dict d') d))
      | Some (Dict sub) \<Rightarrow>
          (case set_path sub p x of
             Inl e \<Rightarrow> Inl e
           | Inr d' \<Rightarrow> Inr (AList.update k (Dict d') d))
      | Some (Leaf y) \<Rightarrow> Inl TypeError)"

text \<open>
  \<^verbatim>\<open>ConfigLoader._load_from_env\<close>: the loop over \<^verbatim>\<open>os.environ.items()\<close>, with
  \<^verbatim>\<open>config\<close> as last argument.
\<close>

fun load_from_env ::
  "py_parsers \<Rightarrow> string \<Rightarrow> (string \<times> string) list \<Rightarrow> scalar dict \<Rightarrow> exn + scalar dict" where
  "load_from_env py pre [] config = Inr config"
| "load_from_env py pre ((key, v) # environ) config =
     (if startswith key pre then
        (case set_path config (env_path pre key) (parse_value py v) of
           Inl e \<Rightarrow> Inl e
         | Inr config' \<Rightarrow> load_from_env py pre environ config')
      else load_from_env py pre environ config)"

text \<open>
  What \<^verbatim>\<open>_load_yaml_file\<close> finds: no file, a file that \<^verbatim>\<open>open\<close> refuses, a text that
  \<^verbatim>\<open>yaml.safe_load\<close> refuses, or a document.
\<close>

datatype yaml_file = Missing | Unreadable exn | Malformed | Document "scalar cfg"

text \<open>\<^verbatim>\<open>ConfigLoader._load_yaml_file\<close>.\<close>

definition load_yaml_file :: "yaml_file \<Rightarrow> exn + scalar dict" where
  "load_yaml_file f =
     (case f of
        Missing \<Rightarrow> Inr []
      | Unreadable e \<Rightarrow> Inl e
      | Malformed \<Rightarrow> Inr []
      | Document (Dict d) \<Rightarrow> Inr d
      | Document (Leaf x) \<Rightarrow> Inr [])"

text \<open>
  \<^verbatim>\<open>ConfigLoader.load\<close>, given the two files that the environment name selects and the
  process environment; \<open>env_prefix\<close> is the constructor's argument.
\<close>

definition load ::
  "py_parsers \<Rightarrow> string \<Rightarrow> yaml_file \<Rightarrow> yaml_file \<Rightarrow> (string \<times> string) list \<Rightarrow>
     exn + scalar dict" where
  "load py env_prefix base_file env_file environ =
     (case load_yaml_file base_file of
        Inl e \<Rightarrow> Inl e
      | Inr base_config \<Rightarrow>
         (case load_yaml_file env_file of
            Inl e \<Rightarrow> Inl e
          | Inr env_config \<Rightarrow>
             (let merged_config = deep_merge base_config env_config
              in case load_from_env py (env_prefix @ ''_'') environ [] of
                   Inl e \<Rightarrow> Inl e
                 | Inr env_vars_config \<Rightarrow> Inr (deep_merge merged_config env_vars_config))))"

subsection \<open>The merge on shared objects\<close>

text \<open>
  Python dictionaries are objects, and a value stored in one is a scalar or a reference
  to another dictionary. The store is the list of all dictionary objects; an address is a
  position in it, and a new object goes to the end.
\<close>

datatype 'a val = Scalar 'a | Ref nat

type_synonym 'a obj = "(string \<times> 'a val) list"

type_synonym 'a heap = "'a obj list"

text \<open>
  \<^verbatim>\<open>ConfigLoader._deep_merge\<close> on the store. \<open>deep_merge_h n h b ov\<close> is a call with
  \<open>n\<close> frames left before \<^verbatim>\<open>RecursionError\<close>: it allocates \<^verbatim>\<open>merged = base.copy()\<close> and
  runs the loop \<open>merge_items\<close> over the items of \<^verbatim>\<open>override\<close>, which assigns to
  \<^verbatim>\<open>merged[key]\<close> at address \<open>m\<close>. It returns the address of \<^verbatim>\<open>merged\<close> and the store.
\<close>

fun merge_items :: "nat \<Rightarrow> 'a heap \<Rightarrow> nat \<Rightarrow> 'a obj \<Rightarrow> exn + 'a heap"
  and deep_merge_h :: "nat \<Rightarrow> 'a heap \<Rightarrow> nat \<Rightarrow> nat \<Rightarrow> exn + nat \<times> 'a heap" where
  "merge_items n h m [] = Inr h"
| "merge_items n h m ((key, Scalar x) # items) =
     merge_items n (h[m := AList.update key (Scalar x) (h ! m)]) m items"
| "merge_items n h m ((key, Ref a) # items) =
     (case map_of (h ! m) key of
        Some (Ref c) \<Rightarrow>
          (case deep_merge_h n h c a of
             Inl e \<Rightarrow> Inl e
           | Inr (r, h') \<Rightarrow> merge_items n (h'[m := AList.update key (Ref r) (h' ! m)]) m items)
      | _ \<Rightarrow> merge_items n (h[m := AList.update key (Ref a) (h ! m)]) m items)"
| "deep_merge_h 0 h b ov = Inl RecursionError"
| "deep_merge_h (Suc n) h b ov =
     (case merge_items n (h @ [h ! b]) (length h) (h ! ov) of
        Inl e \<Rightarrow> Inl e
      | Inr h' \<Rightarrow> Inr (length h, h'))"

text \<open>
  The dictionary that an object stands for: \<open>repr_val A h v c\<close> says that the stored
  value \<open>v\<close>, followed through the store \<open>h\<close> along addresses in \<open>A\<close>, is the
  configuration value \<open>c\<close>.
\<close>

inductive repr_val :: "nat set \<Rightarrow> 'a heap \<Rightarrow> 'a val \<Rightarrow> 'a cfg \<Rightarrow> bool"
  and repr_obj :: "nat set \<Rightarrow> 'a heap \<Rightarrow> 'a obj \<Rightarrow> 'a dict \<Rightarrow> bool"
  for A h where
  repr_Scalar: "repr_val A h (Scalar x) (Leaf x)"
| repr_Ref: "a \<in> A \<Longrightarrow> a < length h \<Longrightarrow> repr_obj A h (h ! a) d \<Longrightarrow> repr_val A h (Ref a) (Dict d)"
| repr_Nil: "repr_obj A h [] []"
| repr_Cons: "repr_val A h v c \<Longrightarrow> repr_obj A h items d \<Longrightarrow>
     repr_obj A h ((k, v) # items) ((k, c) # d)"

inductive_cases repr_ScalarE: "repr_val A h (Scalar x) c"
inductive_cases repr_RefE: "repr_val A h (Ref a) c"
inductive_cases repr_NilE: "repr_obj A h [] d"
inductive_cases repr_ConsE: "repr_obj A h (kv # items) d"

section \<open>Concrete inputs\<close>

text \<open>
  The configuration that \<^verbatim>\<open>script.py\<close> passes to \<^verbatim>\<open>EventListener\<close>, and inputs at
  which the definitions above are evaluated further down: a processor whose destination
  side is set up, collaborators that all answer, a listener whose file holds its
  checkpoint, and a cycle on a live connection.
\<close>

definition CONFIG :: config where
  "CONFIG = \<lparr>start_block = 1000000, poll_interval_seconds = 15,
             block_processing_batch_size = 100\<rparr>"

definition ready_processor :: processor where
  "ready_processor =
     \<lparr>dest_bridge_contract = True, relayer_account = Some ''0xRelayer'', dest_web3 = True\<rparr>"

definition answering :: proc_env where
  "answering =
     \<lparr>unlock_call = None, transaction_count = Inr 7,
      gas_outcomes = \<lparr>oracle_fast = Inr 30, node_gas_price = Inr 25000000000\<rparr>,
      build_transaction = None, sign_transaction = Inr ''0xhash''\<rparr>"

definition checkpoint_file :: "int \<Rightarrow> disk_file" where
  "checkpoint_file n = Some (Inr (JObj [(''last_processed_block'', JInt n)]))"

definition listener_at :: "int \<Rightarrow> listener" where
  "listener_at n =
     \<lparr>last_processed_block = n, state_file = checkpoint_file n,
      source_bridge_contract = True, event_processor = ready_processor\<rparr>"

definition cycle_with :: "int \<Rightarrow> exn + event list \<Rightarrow> cycle_env" where
  "cycle_with latest logs =
     \<lparr>is_connected = True, latest_block_number = Some latest, get_logs = logs,
      proc_envs = (\<lambda>i. answering), save_result = Saved,
      signal_in_retry_sleep = False, signal_in_poll_sleep = False,
      signal_in_backoff_sleep = False\<rparr>"

definition lock_event :: "int \<Rightarrow> event" where
  "lock_event n =
     \<lparr>ev_from = ''0xAlice'', ev_toChainId = 80001, ev_amount = 500, ev_nonce = n,
      transactionHash = ''0xfeed'', blockNumber = 1000010\<rparr>"

definition lookup_fails :: proc_env where
  "lookup_fails = answering\<lparr>transaction_count := Inl ConnectionError\<rparr>"

definition second_fails :: "nat \<Rightarrow> proc_env" where
  "second_fails i = (if i = 1 then lookup_fails else answering)"

definition write_refused :: cycle_env where
  "write_refused = (cycle_with 1000250 (Inr []))\<lparr>save_result := OpenFails PermissionError\<rparr>"

text \<open>
  Inputs for the configuration loader: parsers that read unsigned decimal numerals and
  nothing else (enough for the strings below), a \<^verbatim>\<open>base.yaml\<close>, a
  \<^verbatim>\<open>development.yaml\<close>, a process environment, and a store that holds two dictionaries
  with one nested dictionary each.
\<close>

definition numerals_only :: py_parsers where
  "numerals_only =
     \<lparr>int_of_str =
        (\<lambda>s. if s \<noteq> [] \<and> list_all (\<lambda>c. 48 \<le> (of_char c :: nat) \<and> (of_char c :: nat) \<le> 57) s
              then Some (foldl (\<lambda>n c. 10 * n + (int (of_char c) - 48)) 0 s)
              else None),
      is_float_str = (\<lambda>s. False)\<rparr>"

definition base_yaml :: yaml_file where
  "base_yaml =
     Document (Dict [(''database'', Dict [(''host'', Leaf (VStr ''localhost'')),
                                         (''port'', Leaf (VInt 3306))]),
                     (''debug'', Leaf (VBool False)),
                     (''name'', Leaf (VStr ''app''))])"

definition development_yaml :: yaml_file where
  "development_yaml =
     Document (Dict [(''database'', Dict [(''host'', Leaf (VStr ''dev.db''))])])"

definition process_environment :: "(string \<times> string) list" where
  "process_environment =
     [(''PATH'', ''/bin''), (''APP_DATABASE__PORT'', ''5432''), (''APP_DEBUG'', ''True'')]"

definition two_dicts :: "scalar heap" where
  "two_dicts =
     [[(''name'', Scalar (VStr ''app'')), (''database'', Ref 1)],
      [(''host'', Scalar (VStr ''localhost'')), (''port'', Scalar (VInt 3306))],
      [(''database'', Ref 3), (''debug'', Scalar (VBool True))],
      [(''port'', Scalar (VInt 5432))]]"

section \<open>The scanned range\<close>

lemma block_range_eq:
  "block_range cfg c l = (c + 1, min l (c + 1 + block_processing_batch_size cfg - 1))"
  by (simp add: block_range_def Let_def)

lemma sleep_effects: "sleep n sig = (r, s) \<Longrightarrow> set s \<subseteq> {Sleep n}"
  by (auto simp: sleep_def split: if_splits)

lemma process_events_no_GetLogs:
  "process_events p envs i evs = (r, effs) \<Longrightarrow> GetLogs a b \<notin> set effs"
  by (induction evs arbitrary: i r effs) (auto split: prod.splits sum.splits)

lemma scan_range_no_GetLogs: "scan_range env st = (r, effs) \<Longrightarrow> GetLogs a b \<notin> set effs"
  using process_events_no_GetLogs by (auto simp: scan_range_def split: sum.splits if_splits)

lemma process_block_range_GetLogs:
  assumes "process_block_range cfg env st f t = (r, effs)" and "GetLogs a b \<in> set effs"
  shows "a = f \<and> b = t"
  using assms scan_range_no_GetLogs [of env st _ _ a b]
  by (auto simp: process_block_range_def split: if_splits prod.splits option.splits
      dest!: sleep_effects)

lemma run_body_idle:
  assumes "is_connected env" and "latest_block_number env = Some l"
    and "l < last_processed_block st + 1"
  shows "\<exists>r s. run_body cfg env st = (r, st, s) \<and> set s \<subseteq> {Sleep (poll_interval_seconds cfg)}"
proof -
  obtain r s where s: "sleep (poll_interval_seconds cfg) (signal_in_poll_sleep env) = (r, s)"
    by (cases "sleep (poll_interval_seconds cfg) (signal_in_poll_sleep env)")
  then have "run_body cfg env st = (r, st, s)"
    using assms by (simp add: run_body_def block_range_eq)
  with sleep_effects [OF s] show ?thesis by blast
qed

lemma run_body_scan_GetLogs:
  assumes "is_connected env" and "latest_block_number env = Some l"
    and "run_body cfg env st = (r, st', effs)" and "GetLogs a b \<in> set effs"
  shows "(a, b) = block_range cfg (last_processed_block st) l"
proof (cases "l < last_processed_block st + 1")
  case True
  from run_body_idle [OF assms(1,2) True, of cfg] assms(3,4) show ?thesis by auto
next
  case False
  let ?f = "last_processed_block st + 1"
  let ?t = "min l (?f + block_processing_batch_size cfg - 1)"
  obtain r1 e1 where p: "process_block_range cfg env st ?f ?t = (r1, e1)"
    by (cases "process_block_range cfg env st ?f ?t")
  obtain r2 f2 where sv: "save_state (save_result env) ?t (state_file st) = (r2, f2)"
    by (cases "save_state (save_result env) ?t (state_file st)")
  obtain r3 s3 where sl: "sleep (poll_interval_seconds cfg) (signal_in_poll_sleep env) = (r3, s3)"
    by (cases "sleep (poll_interval_seconds cfg) (signal_in_poll_sleep env)")
  have "set effs \<subseteq> set e1 \<union> {SaveState ?t} \<union> set s3"
    using assms(1-3) False p sv sl
    by (auto simp: run_body_def block_range_eq split: option.splits)
  with assms(4) sleep_effects [OF sl] have "GetLogs a b \<in> set e1" by auto
  from process_block_range_GetLogs [OF p this] show ?thesis
    by (simp add: block_range_eq)
qed

lemma run_cycle_body:
  assumes "run_cycle cfg env st = (r, st', effs)"
  shows "\<exists>e effs0 s. run_body cfg env st = (e, st', effs0) \<and> effs = effs0 @ s \<and>
           set s \<subseteq> {Sleep (poll_interval_seconds cfg * 2)}"
proof -
  obtain e st1 effs0 where b: "run_body cfg env st = (e, st1, effs0)"
    by (cases "run_body cfg env st")
  obtain r3 s3 where
    sl: "sleep (poll_interval_seconds cfg * 2) (signal_in_backoff_sleep env) = (r3, s3)"
    by (cases "sleep (poll_interval_seconds cfg * 2) (signal_in_backoff_sleep env)")
  have "st' = st1 \<and> (effs = effs0 @ [] \<or> effs = effs0 @ s3)"
    using assms b sl by (auto simp: run_cycle_def split: option.splits if_splits)
  with b sleep_effects [OF sl] show ?thesis by (metis empty_set empty_subsetI)
qed

text \<open>
  C3. With a batch size of at least 1, a cycle on a live connection whose checkpoint is
  \<open>c\<close> and whose latest height is \<open>l\<close> computes \<open>from = c + 1\<close> and
  \<open>to = min l (from + batch - 1)\<close>. When \<open>from \<le> l\<close> the range is not empty, holds at
  most \<open>batch\<close> blocks, and is the only range the cycle queries; when \<open>from > l\<close> the
  cycle queries no range and leaves the listener, checkpoint and file, as it was.
\<close>

theorem batch_bounding:
  assumes "1 \<le> block_processing_batch_size cfg"
    and "is_connected env"
    and "latest_block_number env = Some l"
  shows "case block_range cfg (last_processed_block st) l of
           (from_block, to_block) \<Rightarrow>
             from_block = last_processed_block st + 1 \<and>
             to_block = min l (from_block + block_processing_batch_size cfg - 1) \<and>
             (from_block \<le> l \<longrightarrow>
                from_block \<le> to_block \<and>
                to_block - from_block + 1 \<le> block_processing_batch_size cfg \<and>
                (\<forall>a b. GetLogs a b \<in> set (snd (snd (run_cycle cfg env st))) \<longrightarrow>
                   a = from_block \<and> b = to_block)) \<and>
             (l < from_block \<longrightarrow>
                (\<forall>a b. GetLogs a b \<notin> set (snd (snd (run_cycle cfg env st)))) \<and>
                fst (snd (run_cycle cfg env st)) = st)"
proof -
  obtain r st' effs where c: "run_cycle cfg env st = (r, st', effs)"
    by (cases "run_cycle cfg env st")
  from run_cycle_body [OF c] obtain e effs0 s where
    b: "run_body cfg env st = (e, st', effs0)" and effs: "effs = effs0 @ s"
    and s: "set s \<subseteq> {Sleep (poll_interval_seconds cfg * 2)}" by blast
  have logs: "GetLogs a b \<in> set effs \<Longrightarrow> (a, b) = block_range cfg (last_processed_block st) l"
    for a b
    using run_body_scan_GetLogs [OF assms(2,3) b, of a b] effs s by auto
  have idle: "l < last_processed_block st + 1 \<Longrightarrow> st' = st \<and> GetLogs a b \<notin> set effs" for a b
    using run_body_idle [OF assms(2,3), of st cfg] b effs s by auto
  show ?thesis
    using assms(1) logs idle by (auto simp: c block_range_eq)
qed

theorem batch_bounding_witness:
  "1 \<le> block_processing_batch_size CONFIG \<and>
   is_connected (cycle_with 1000250 (Inr [])) \<and>
   latest_block_number (cycle_with 1000250 (Inr [])) = Some 1000250 \<and>
   block_range CONFIG (last_processed_block (listener_at 1000200)) 1000250 =
     (1000201, 1000250) \<and>
   GetLogs 1000201 1000250 \<in>
     set (snd (snd (run_cycle CONFIG (cycle_with 1000250 (Inr [])) (listener_at 1000200)))) \<and>
   block_range CONFIG (last_processed_block (listener_at 1000250)) 1000250 =
     (1000251, 1000250) \<and>
   fst (snd (run_cycle CONFIG (cycle_with 1000250 (Inr [])) (listener_at 1000250))) =
     listener_at 1000250"
  using batch_bounding [of CONFIG "cycle_with 1000250 (Inr [])" 1000250 "listener_at 1000200"]
    batch_bounding [of CONFIG "cycle_with 1000250 (Inr [])" 1000250 "listener_at 1000250"]
  apply (simp add: CONFIG_def cycle_with_def listener_at_def block_range_def)
  apply (simp add: run_cycle_def run_body_def block_range_def process_block_range_def
      scan_range_def save_state_def sleep_def)
  done

section \<open>The gas price\<close>

lemma to_wei_gwei_20: "to_wei_gwei 20 = Inr 20000000000"
  by (simp add: to_wei_gwei_def)

lemma is_Exception_iff: "is_Exception e \<longleftrightarrow> e \<noteq> KeyboardInterrupt"
  by (cases e) simp_all

text \<open>
  C4, as the code has it. \<^verbatim>\<open>_get_gas_price\<close> returns the oracle's fast tier converted
  to wei when the oracle answers; when the oracle or the conversion fails with an
  \<^verbatim>\<open>Exception\<close> it returns what the destination node's own gas-price query yields if
  the web3 handle exists, and the floor of 20 gwei if the handle is absent. It returns
  a price, raising nothing, whenever the node query does not raise (or the handle is
  absent) and the oracle call is not cut short by the shutdown signal.
\<close>

theorem gas_price_fallback:
  "(oracle_fast g = Inr fast \<and> to_wei_gwei fast = Inr w \<longrightarrow>
      w = fast * 1000000000 \<and> get_gas_price handle g = (Inr w, [])) \<and>
   (oracle_price g = Inl e \<and> is_Exception e \<and> handle \<longrightarrow>
      get_gas_price handle g = (node_gas_price g, [EthGasPrice])) \<and>
   (oracle_price g = Inl e \<and> is_Exception e \<and> \<not> handle \<longrightarrow>
      get_gas_price handle g = (Inr 20000000000, [])) \<and>
   (oracle_price g \<noteq> Inl KeyboardInterrupt \<and> (handle \<longrightarrow> (\<exists>p. node_gas_price g = Inr p)) \<longrightarrow>
      (\<exists>p. fst (get_gas_price handle g) = Inr p))"
proof -
  have a: "oracle_fast g = Inr fast \<Longrightarrow> to_wei_gwei fast = Inr w \<Longrightarrow>
      w = fast * 1000000000 \<and> get_gas_price handle g = (Inr w, [])"
    by (auto simp: get_gas_price_def oracle_price_def to_wei_gwei_def Let_def split: if_splits)
  have b: "oracle_price g = Inl e \<Longrightarrow> is_Exception e \<Longrightarrow> handle \<Longrightarrow>
      get_gas_price handle g = (node_gas_price g, [EthGasPrice])"
    by (simp add: get_gas_price_def)
  have c: "oracle_price g = Inl e \<Longrightarrow> is_Exception e \<Longrightarrow> \<not> handle \<Longrightarrow>
      get_gas_price handle g = (Inr 20000000000, [])"
    by (simp add: get_gas_price_def to_wei_gwei_20)
  have d: "oracle_price g \<noteq> Inl KeyboardInterrupt \<Longrightarrow> (handle \<longrightarrow> (\<exists>p. node_gas_price g = Inr p)) \<Longrightarrow>
      \<exists>p. fst (get_gas_price handle g) = Inr p"
    by (cases "oracle_price g")
      (auto simp: get_gas_price_def to_wei_gwei_20 is_Exception_iff)
  from a b c d show ?thesis by blast
qed

text \<open>
  The claim as stated fails: with a failing oracle and a web3 handle whose gas-price
  query raises, the exception of the node leaves \<^verbatim>\<open>_get_gas_price\<close>.
\<close>

theorem gas_price_can_raise:
  "fst (get_gas_price True \<lparr>oracle_fast = Inl HTTPError, node_gas_price = Inl ConnectionError\<rparr>)
     = Inl ConnectionError"
  by (simp add: get_gas_price_def oracle_price_def)

theorem gas_price_fallback_witness:
  "get_gas_price True \<lparr>oracle_fast = Inr 30, node_gas_price = Inr 25000000000\<rparr> = (Inr 30000000000, []) \<and>
   get_gas_price True \<lparr>oracle_fast = Inl HTTPError, node_gas_price = Inr 25000000000\<rparr> = (Inr 25000000000, [EthGasPrice]) \<and>
   get_gas_price False \<lparr>oracle_fast = Inl HTTPError, node_gas_price = Inl ConnectionError\<rparr> = (Inr 20000000000, []) \<and>
   (\<exists>p. fst (get_gas_price True \<lparr>oracle_fast = Inr (-1), node_gas_price = Inr 25000000000\<rparr>) = Inr p)"
  using gas_price_fallback [where g = "\<lparr>oracle_fast = Inr 30, node_gas_price = Inr 25000000000\<rparr>"
        and fast = 30 and w = 30000000000 and handle = True and e = HTTPError]
    gas_price_fallback [where g = "\<lparr>oracle_fast = Inl HTTPError, node_gas_price = Inr 25000000000\<rparr>"
        and fast = 30 and w = 30000000000 and e = HTTPError and handle = True]
    gas_price_fallback [where g = "\<lparr>oracle_fast = Inl HTTPError, node_gas_price = Inl ConnectionError\<rparr>"
        and fast = 30 and w = 30000000000 and e = HTTPError and handle = False]
    gas_price_fallback [where g = "\<lparr>oracle_fast = Inr (-1), node_gas_price = Inr 25000000000\<rparr>"
        and fast = 30 and w = 30000000000 and e = HTTPError and handle = True]
  by (simp add: oracle_price_def to_wei_gwei_def)


section \<open>Processing one event\<close>

lemma get_gas_price_rpcs: "get_gas_price handle g = (r, cs) \<Longrightarrow> set cs \<subseteq> {EthGasPrice}"
  by (auto simp: get_gas_price_def split: sum.splits if_splits)

lemma get_gas_price_no_signal:
  assumes "oracle_fast g \<noteq> Inl KeyboardInterrupt" and "node_gas_price g \<noteq> Inl KeyboardInterrupt"
  shows "fst (get_gas_price handle g) \<noteq> Inl KeyboardInterrupt"
  using assms
  by (auto simp: get_gas_price_def oracle_price_def to_wei_gwei_def Let_def is_Exception_iff
      split: sum.splits if_splits)

lemma build_and_sign_rpcs:
  "build_and_sign addr handle env ev = (r, cs) \<Longrightarrow>
     set cs \<subseteq> {EthGasPrice, EthGetTransactionCount addr}"
  by (auto simp: build_and_sign_def Let_def split: option.splits sum.splits prod.splits
      dest!: get_gas_price_rpcs)

lemma build_and_sign_fields:
  assumes "build_and_sign addr handle env ev = (Inr (tx, h), cs)"
  shows "recipient tx = ev_from ev \<and> amount tx = ev_amount ev \<and> sourceNonce tx = ev_nonce ev \<and>
         gas tx = 200000 \<and> tx_from tx = addr \<and> transaction_count env = Inr (tx_nonce tx) \<and>
         fst (get_gas_price handle (gas_outcomes env)) = Inr (gasPrice tx) \<and>
         sign_transaction env = Inr h"
  using assms
  by (auto simp: build_and_sign_def Let_def split: option.splits sum.splits prod.splits)

lemma build_and_sign_no_signal:
  assumes "no_signal env"
  shows "fst (build_and_sign addr handle env ev) \<noteq> Inl KeyboardInterrupt"
  using assms get_gas_price_no_signal [of "gas_outcomes env" handle]
  by (auto simp: build_and_sign_def no_signal_def Let_def split: option.splits sum.splits prod.splits)

lemma process_event_rpcs:
  "process_event p env ev = (r, cs) \<Longrightarrow> EthSendRawTransaction raw \<notin> set cs"
  by (auto simp: process_event_def split: option.splits sum.splits prod.splits if_splits
      dest!: build_and_sign_rpcs)

text \<open>
  C7. Whenever \<^verbatim>\<open>process_event\<close> gets as far as a signed transaction, the call it
  built has the event's \<^verbatim>\<open>from\<close> address as recipient, the event's amount and the
  event's nonce as \<^verbatim>\<open>sourceNonce\<close>, and a gas limit of 200000; the hash it logs is the
  one the signer returned, and no \<^verbatim>\<open>send_raw_transaction\<close> is among the requests it
  sent to the destination node.
\<close>

theorem unlock_transaction_fields:
  assumes "process_event p env ev = (Inr (Signed tx h), cs)"
  shows "recipient tx = ev_from ev \<and> amount tx = ev_amount ev \<and>
         sourceNonce tx = ev_nonce ev \<and> gas tx = 200000 \<and>
         sign_transaction env = Inr h \<and>
         (\<forall>raw. EthSendRawTransaction raw \<notin> set cs)"
proof -
  from assms obtain addr where "build_and_sign addr (dest_web3 p) env ev = (Inr (tx, h), cs)"
    by (auto simp: process_event_def split: option.splits sum.splits prod.splits if_splits)
  from build_and_sign_fields [OF this] process_event_rpcs [OF assms] show ?thesis by blast
qed

theorem unlock_transaction_fields_witness:
  "process_event ready_processor answering (lock_event 3) =
     (Inr (Signed \<lparr>recipient = ''0xAlice'', amount = 500, sourceNonce = 3,
                   tx_from = ''0xRelayer'', tx_nonce = 7, gas = 200000,
                   gasPrice = 30000000000\<rparr> ''0xhash''),
      [EthGetTransactionCount ''0xRelayer'']) \<and>
   recipient \<lparr>recipient = ''0xAlice'', amount = 500, sourceNonce = 3,
                   tx_from = ''0xRelayer'', tx_nonce = 7, gas = 200000,
                   gasPrice = 30000000000\<rparr> = ev_from (lock_event 3) \<and>
   sign_transaction answering = Inr ''0xhash''"
proof -
  have e: "process_event ready_processor answering (lock_event 3) =
     (Inr (Signed \<lparr>recipient = ''0xAlice'', amount = 500, sourceNonce = 3,
                   tx_from = ''0xRelayer'', tx_nonce = 7, gas = 200000,
                   gasPrice = 30000000000\<rparr> ''0xhash''),
      [EthGetTransactionCount ''0xRelayer''])"
    by (simp add: process_event_def build_and_sign_def get_gas_price_def oracle_price_def
        to_wei_gwei_def ready_processor_def answering_def lock_event_def)
  from unlock_transaction_fields [OF e] e show ?thesis by simp
qed

section \<open>Processing a batch\<close>

lemma process_event_no_signal:
  assumes "no_signal env"
  shows "\<exists>out. fst (process_event p env ev) = Inr out"
proof (cases "relayer_account p")
  case None
  then show ?thesis by (simp add: process_event_def)
next
  case (Some addr)
  obtain r cs where b: "build_and_sign addr (dest_web3 p) env ev = (r, cs)"
    by (cases "build_and_sign addr (dest_web3 p) env ev")
  with build_and_sign_no_signal [OF assms, of addr "dest_web3 p" ev]
  have "r \<noteq> Inl KeyboardInterrupt" by simp
  then show ?thesis using Some b
    by (cases r) (auto simp: process_event_def is_Exception_iff)
qed

lemma process_events_all:
  assumes "\<forall>j. no_signal (envs j)"
  shows "process_events p envs i evs =
           (None, map (\<lambda>(j, ev). Process ev (fst (process_event p (envs j) ev))
                                       (snd (process_event p (envs j) ev)))
                      (enumerate i evs))"
proof (induction evs arbitrary: i)
  case Nil
  show ?case by simp
next
  case (Cons ev evs)
  from process_event_no_signal [of "envs i" p ev] assms
  obtain out where "fst (process_event p (envs i) ev) = Inr out" by blast
  then show ?case using Cons [of "Suc i"]
    by (cases "process_event p (envs i) ev") simp
qed


text \<open>
  C6. As long as the collaborators fail with an \<^verbatim>\<open>Exception\<close> (the shutdown signal
  set aside), \<^verbatim>\<open>process_event\<close> returns whatever happens: with a destination side
  that is not set up it does nothing, and an error of the sequence-number lookup or of
  the signer is caught and logged. The loop of \<^verbatim>\<open>_process_block_range\<close> therefore
  passes every event of the batch to \<^verbatim>\<open>process_event\<close>, in order, whatever became of
  the events before it, and \<^verbatim>\<open>_process_block_range\<close> returns normally.
\<close>

theorem per_event_failures_contained:
  assumes "\<forall>j. no_signal (envs j)"
  shows "(\<exists>out. fst (process_event p (envs i) ev) = Inr out) \<and>
         (relayer_account p = None \<or> \<not> dest_bridge_contract p \<or> \<not> dest_web3 p \<longrightarrow>
            process_event p (envs i) ev = (Inr NotInitialized, [])) \<and>
         (relayer_account p = Some addr \<and> dest_bridge_contract p \<and> dest_web3 p \<and>
          unlock_call (envs i) = None \<and> transaction_count (envs i) = Inl e \<longrightarrow>
            fst (process_event p (envs i) ev) = Inr (Failed e)) \<and>
         (relayer_account p = Some addr \<and> dest_bridge_contract p \<and> dest_web3 p \<and>
          unlock_call (envs i) = None \<and> transaction_count (envs i) = Inr n \<and>
          fst (get_gas_price True (gas_outcomes (envs i))) = Inr price \<and>
          build_transaction (envs i) = None \<and> sign_transaction (envs i) = Inl e \<longrightarrow>
            fst (process_event p (envs i) ev) = Inr (Failed e)) \<and>
         process_events p envs i evs =
           (None, map (\<lambda>(j, ev). Process ev (fst (process_event p (envs j) ev))
                                       (snd (process_event p (envs j) ev)))
                      (enumerate i evs)) \<and>
         (source_bridge_contract st \<and> event_processor st = p \<and> proc_envs env = envs \<and>
          get_logs env = Inr evs \<longrightarrow>
            process_block_range cfg env st f t =
              (None, GetLogs f t #
                 map (\<lambda>(j, ev). Process ev (fst (process_event p (envs j) ev))
                                       (snd (process_event p (envs j) ev)))
                     (enumerate 0 evs)))"
proof -
  have ns: "no_signal (envs i)" using assms by simp
  have a: "\<exists>out. fst (process_event p (envs i) ev) = Inr out"
    by (rule process_event_no_signal [OF ns])
  have b: "relayer_account p = None \<or> \<not> dest_bridge_contract p \<or> \<not> dest_web3 p \<Longrightarrow>
      process_event p (envs i) ev = (Inr NotInitialized, [])"
    by (auto simp: process_event_def split: option.splits)
  have c: "fst (process_event p (envs i) ev) = Inr (Failed e)"
    if "relayer_account p = Some addr" "dest_bridge_contract p" "dest_web3 p"
      "unlock_call (envs i) = None" "transaction_count (envs i) = Inl e"
  proof -
    have "e \<noteq> KeyboardInterrupt" using ns that(5) by (auto simp: no_signal_def)
    then show ?thesis using that
      by (simp add: process_event_def build_and_sign_def is_Exception_iff)
  qed
  have d: "fst (process_event p (envs i) ev) = Inr (Failed e)"
    if "relayer_account p = Some addr" "dest_bridge_contract p" "dest_web3 p"
      "unlock_call (envs i) = None" "transaction_count (envs i) = Inr n"
      "fst (get_gas_price True (gas_outcomes (envs i))) = Inr price"
      "build_transaction (envs i) = None" "sign_transaction (envs i) = Inl e"
  proof -
    have "e \<noteq> KeyboardInterrupt" using ns that(8) by (auto simp: no_signal_def)
    then show ?thesis using that
      by (cases "get_gas_price True (gas_outcomes (envs i))")
        (simp add: process_event_def build_and_sign_def is_Exception_iff)
  qed
  note all = process_events_all [OF assms, of p]
  have f: "process_block_range cfg env st f t =
              (None, GetLogs f t #
                 map (\<lambda>(j, ev). Process ev (fst (process_event p (envs j) ev))
                                       (snd (process_event p (envs j) ev)))
                     (enumerate 0 evs))"
    if "source_bridge_contract st" "event_processor st = p" "proc_envs env = envs"
      "get_logs env = Inr evs"
    using that all [of 0 evs] by (simp add: process_block_range_def scan_range_def)
  from a b c d all [of i evs] f show ?thesis by blast
qed

lemma second_fails_no_signal: "\<forall>j. no_signal (second_fails j)"
  by (simp add: second_fails_def lookup_fails_def answering_def no_signal_def)

theorem per_event_failures_contained_witness:
  "(\<forall>j. no_signal (second_fails j)) \<and>
   fst (process_event ready_processor (second_fails 1) (lock_event 2)) = Inr (Failed ConnectionError) \<and>
   process_events ready_processor second_fails 0 [lock_event 1, lock_event 2, lock_event 3] =
     (None,
      [Process (lock_event 1) (fst (process_event ready_processor answering (lock_event 1)))
         [EthGetTransactionCount ''0xRelayer''],
       Process (lock_event 2) (Inr (Failed ConnectionError)) [EthGetTransactionCount ''0xRelayer''],
       Process (lock_event 3) (fst (process_event ready_processor answering (lock_event 3)))
         [EthGetTransactionCount ''0xRelayer'']])"
  using per_event_failures_contained [OF second_fails_no_signal,
      where p = ready_processor and i = 1 and ev = "lock_event 2" and addr = "''0xRelayer''"
        and e = ConnectionError and n = 7 and price = 1
        and evs = "[lock_event 1, lock_event 2, lock_event 3]"
        and st = "listener_at 0" and env = "cycle_with 0 (Inr [])" and cfg = CONFIG
        and f = 1 and t = 1]
    per_event_failures_contained [OF second_fails_no_signal,
      where p = ready_processor and i = 0 and ev = "lock_event 2" and addr = "''0xRelayer''"
        and e = ConnectionError and n = 7 and price = 1
        and evs = "[lock_event 1, lock_event 2, lock_event 3]"
        and st = "listener_at 0" and env = "cycle_with 0 (Inr [])" and cfg = CONFIG
        and f = 1 and t = 1]
    second_fails_no_signal
  by (simp add: second_fails_def lookup_fails_def answering_def ready_processor_def
      process_event_def build_and_sign_def get_gas_price_def oracle_price_def to_wei_gwei_def
      enumerate_eq_zip upt_rec)


section \<open>The loop after an exception\<close>

text \<open>
  C8. When the \<^verbatim>\<open>try\<close> block of a pass raises an \<^verbatim>\<open>Exception\<close> and the poll interval is
  not negative, the pass ends with a sleep of twice the poll interval and the loop goes
  on with the next pass; only the shutdown signal, arriving during that sleep, ends
  \<^verbatim>\<open>run\<close>.
\<close>

theorem backoff_after_exception:
  assumes "run_body cfg env st = (Some e, st', effs)"
    and "is_Exception e"
    and "0 \<le> poll_interval_seconds cfg"
  shows "run_cycle cfg env st =
           (if signal_in_backoff_sleep env then Propagate KeyboardInterrupt else Continue,
            st', effs @ [Sleep (poll_interval_seconds cfg * 2)]) \<and>
         (\<not> signal_in_backoff_sleep env \<longrightarrow>
            run cfg (env # envs) st =
              (fst (run cfg envs st'), fst (snd (run cfg envs st')),
               effs @ Sleep (poll_interval_seconds cfg * 2) # snd (snd (run cfg envs st'))))"
proof -
  have ne: "e \<noteq> KeyboardInterrupt" using assms(2) by (simp add: is_Exception_iff)
  have c: "run_cycle cfg env st =
           (if signal_in_backoff_sleep env then Propagate KeyboardInterrupt else Continue,
            st', effs @ [Sleep (poll_interval_seconds cfg * 2)])"
    using assms ne by (simp add: run_cycle_def sleep_def)
  then show ?thesis by (auto split: prod.splits)
qed

theorem backoff_after_exception_witness:
  "run_body CONFIG write_refused (listener_at 1000200) =
     (Some PermissionError, (listener_at 1000200)\<lparr>last_processed_block := 1000250\<rparr>,
      [GetLogs 1000201 1000250]) \<and>
   is_Exception PermissionError \<and> 0 \<le> poll_interval_seconds CONFIG \<and>
   run_cycle CONFIG write_refused (listener_at 1000200) =
     (Continue, (listener_at 1000200)\<lparr>last_processed_block := 1000250\<rparr>,
      [GetLogs 1000201 1000250, Sleep 30])"
proof -
  have b: "run_body CONFIG write_refused (listener_at 1000200) =
     (Some PermissionError, (listener_at 1000200)\<lparr>last_processed_block := 1000250\<rparr>,
      [GetLogs 1000201 1000250])"
    by (simp add: run_body_def write_refused_def cycle_with_def listener_at_def CONFIG_def
        block_range_def process_block_range_def scan_range_def save_state_def)
  have p: "0 \<le> poll_interval_seconds CONFIG" by (simp add: CONFIG_def)
  have s: "\<not> signal_in_backoff_sleep write_refused" "poll_interval_seconds CONFIG * 2 = 30"
    by (simp_all add: write_refused_def cycle_with_def CONFIG_def)
  from backoff_after_exception [OF b _ p, of "[]"] b p s show ?thesis by simp
qed

section \<open>The checkpoint across cycles\<close>

text \<open>
  C1, evaluated. The checkpoint is 99, the head is 150, and the log query for
  \<open>[100, 150]\<close> fails, once with \<^verbatim>\<open>BlockNotFound\<close> and once with another error.
  \<^verbatim>\<open>_process_block_range\<close> swallows the failure, \<^verbatim>\<open>run\<close> sets and saves the checkpoint
  150, and the next pass finds no new block: the range is never asked for again.
\<close>

theorem failed_range_is_not_retried:
  "run CONFIG [cycle_with 150 (Inl BlockNotFound), cycle_with 150 (Inr [])] (listener_at 99) =
     (Continue, listener_at 150,
      [GetLogs 100 150, Sleep 15, SaveState 150, Sleep 15, Sleep 15]) \<and>
   run CONFIG [cycle_with 150 (Inl ConnectionError), cycle_with 150 (Inr [])] (listener_at 99) =
     (Continue, listener_at 150, [GetLogs 100 150, SaveState 150, Sleep 15, Sleep 15])"
  by (simp add: run_cycle_def run_body_def block_range_def process_block_range_def
      scan_range_def save_state_def sleep_def CONFIG_def cycle_with_def listener_at_def
      checkpoint_file_def)

text \<open>
  C2, evaluated. A pass whose log query fails writes its \<open>to\<close> into the file all the
  same, and so does a pass of a listener that has no contract handle and queries nothing.
\<close>

theorem checkpoint_saved_without_successful_query:
  "run_cycle CONFIG (cycle_with 150 (Inl ConnectionError)) (listener_at 99) =
     (Continue, listener_at 150, [GetLogs 100 150, SaveState 150, Sleep 15]) \<and>
   state_file (listener_at 150) = checkpoint_file 150 \<and>
   run_cycle CONFIG (cycle_with 150 (Inr [lock_event 1]))
       ((listener_at 99)\<lparr>source_bridge_contract := False\<rparr>) =
     (Continue, (listener_at 150)\<lparr>source_bridge_contract := False\<rparr>,
      [SaveState 150, Sleep 15])"
  by (simp add: run_cycle_def run_body_def block_range_def process_block_range_def
      scan_range_def save_state_def sleep_def CONFIG_def cycle_with_def listener_at_def
      checkpoint_file_def)

text \<open>
  The other half of C2 does hold on the code: with a batch size of at least 1 the
  checkpoint in memory never decreases, and a checkpoint read from the file after any
  number of passes is at least the one read before them.
\<close>

lemma save_state_file:
  assumes "save_state out n f = (r, f')"
  shows "f' = f \<or> persisted f' = None \<or> persisted f' = Some n"
  using assms by (cases out) (auto simp: save_state_def persisted_def)

lemma run_body_checkpoint:
  assumes "1 \<le> block_processing_batch_size cfg" and "run_body cfg env st = (r, st', effs)"
  shows "last_processed_block st \<le> last_processed_block st' \<and>
         (state_file st' = state_file st \<or> persisted (state_file st') = None \<or>
          (persisted (state_file st') = Some (last_processed_block st') \<and>
           last_processed_block st < last_processed_block st'))"
proof (cases "is_connected env")
  case False
  with assms(2) show ?thesis by (auto simp: run_body_def split: prod.splits)
next
  case True
  show ?thesis
  proof (cases "latest_block_number env")
    case None
    with True assms(2) show ?thesis by (auto simp: run_body_def split: prod.splits)
  next
    case (Some l)
    let ?f = "last_processed_block st + 1"
    let ?t = "min l (?f + block_processing_batch_size cfg - 1)"
    show ?thesis
    proof (cases "l < ?f")
      case idle: True
      from run_body_idle [OF True Some idle, of cfg] assms(2) show ?thesis by auto
    next
      case scan: False
      obtain r1 e1 where p: "process_block_range cfg env st ?f ?t = (r1, e1)"
        by (cases "process_block_range cfg env st ?f ?t")
      obtain r2 f2 where sv: "save_state (save_result env) ?t (state_file st) = (r2, f2)"
        by (cases "save_state (save_result env) ?t (state_file st)")
      have t: "last_processed_block st < ?t" using scan assms(1) by simp
      have "st' = st \<or> st' = st\<lparr>last_processed_block := ?t, state_file := f2\<rparr>"
        using True Some scan p sv assms(2)
        by (auto simp: run_body_def block_range_eq split: option.splits prod.splits)
      then show ?thesis using save_state_file [OF sv] t by auto
    qed
  qed
qed

lemma run_cycle_checkpoint:
  assumes "1 \<le> block_processing_batch_size cfg" and "run_cycle cfg env st = (r, st', effs)"
  shows "last_processed_block st \<le> last_processed_block st' \<and>
         (state_file st' = state_file st \<or> persisted (state_file st') = None \<or>
          (persisted (state_file st') = Some (last_processed_block st') \<and>
           last_processed_block st < last_processed_block st'))"
proof -
  from run_cycle_body [OF assms(2)] obtain e effs0 where "run_body cfg env st = (e, st', effs0)"
    by blast
  from run_body_checkpoint [OF assms(1) this] show ?thesis .
qed

lemma run_checkpoint:
  assumes "1 \<le> block_processing_batch_size cfg" and "run cfg envs st = (r, st', effs)"
  shows "last_processed_block st \<le> last_processed_block st' \<and>
         (state_file st' = state_file st \<or> persisted (state_file st') = None \<or>
          (\<exists>p. persisted (state_file st') = Some p \<and> last_processed_block st < p \<and>
               p \<le> last_processed_block st'))"
  using assms(2)
proof (induction envs arbitrary: st r st' effs)
  case Nil
  then show ?case by simp
next
  case (Cons env envs)
  obtain r1 st1 e1 where c: "run_cycle cfg env st = (r1, st1, e1)"
    by (cases "run_cycle cfg env st")
  note one = run_cycle_checkpoint [OF assms(1) c]
  show ?case
  proof (cases r1)
    case Continue
    obtain r2 st2 e2 where rest: "run cfg envs st1 = (r2, st2, e2)"
      by (cases "run cfg envs st1")
    with Cons.prems c Continue have "st' = st2" by simp
    with Cons.IH [OF rest] one show ?thesis by fastforce
  next
    case Break
    with Cons.prems c have "st' = st1" by simp
    with one show ?thesis by auto
  next
    case (Propagate x)
    with Cons.prems c have "st' = st1" by simp
    with one show ?thesis by auto
  qed
qed

lemma persisted_checkpoint_monotone:
  assumes "1 \<le> block_processing_batch_size cfg"
    and "persisted (state_file st) = Some p" and "p \<le> last_processed_block st"
    and "run cfg envs st = (r, st', effs)" and "persisted (state_file st') = Some p'"
  shows "p \<le> p'"
  using run_checkpoint [OF assms(1,4)] assms(2,3,5) by auto

section \<open>Loading and saving the checkpoint\<close>

text \<open>
  C5, as the code has it. When the file opens and parses to a JSON object that holds an
  integer under \<^verbatim>\<open>last_processed_block\<close>, \<^verbatim>\<open>_load_state\<close> returns that integer. It
  returns the configured start block, raising nothing, when the file is absent, when its
  text is not valid JSON, and when the object lacks the key.
\<close>

theorem load_state_contract:
  "(f = Some (Inr (JObj kvs)) \<and> map_of kvs ''last_processed_block'' = Some (JInt n) \<longrightarrow>
      load_state conv None f cfg = Inr n) \<and>
   (f = None \<longrightarrow> load_state conv None f cfg = Inr (start_block cfg)) \<and>
   (f = Some (Inl JSONDecodeError) \<longrightarrow> load_state conv None f cfg = Inr (start_block cfg)) \<and>
   (f = Some (Inr (JObj kvs)) \<and> map_of kvs ''last_processed_block'' = None \<longrightarrow>
      load_state conv None f cfg = Inr (start_block cfg))"
  by (simp add: load_state_def read_state_def state_get_def py_int_def)

theorem load_state_contract_witness:
  "\<forall>conv.
     load_state conv None (checkpoint_file 1000100) CONFIG = Inr 1000100 \<and>
     load_state conv None None CONFIG = Inr 1000000 \<and>
     load_state conv None (Some (Inl JSONDecodeError)) CONFIG = Inr 1000000 \<and>
     load_state conv None (Some (Inr (JObj [(''height'', JInt 5)]))) CONFIG = Inr 1000000"
proof
  fix conv
  show "load_state conv None (checkpoint_file 1000100) CONFIG = Inr 1000100 \<and>
     load_state conv None None CONFIG = Inr 1000000 \<and>
     load_state conv None (Some (Inl JSONDecodeError)) CONFIG = Inr 1000000 \<and>
     load_state conv None (Some (Inr (JObj [(''height'', JInt 5)]))) CONFIG = Inr 1000000"
    using load_state_contract [where f = "checkpoint_file 1000100" and n = 1000100
        and kvs = "[(''last_processed_block'', JInt 1000100)]" and cfg = CONFIG and conv = conv]
      load_state_contract [where f = None and n = 1000100
        and kvs = "[(''last_processed_block'', JInt 1000100)]" and cfg = CONFIG and conv = conv]
      load_state_contract [where f = "Some (Inl JSONDecodeError)" and n = 1000100
        and kvs = "[(''last_processed_block'', JInt 1000100)]" and cfg = CONFIG and conv = conv]
      load_state_contract [where f = "Some (Inr (JObj [(''height'', JInt 5)]))" and n = 1000100
        and kvs = "[(''height'', JInt 5)]" and cfg = CONFIG and conv = conv]
    by (simp add: checkpoint_file_def CONFIG_def)
qed

text \<open>
  The claim as stated fails. Whatever \<^verbatim>\<open>int()\<close> makes of strings and floats, a file
  that holds the JSON text \<^verbatim>\<open>[]\<close> makes \<^verbatim>\<open>_load_state\<close> raise \<^verbatim>\<open>AttributeError\<close>, one
  that holds \<^verbatim>\<open>{"last_processed_block": null}\<close> makes it raise \<^verbatim>\<open>TypeError\<close>, bytes
  that do not decode make it raise \<^verbatim>\<open>UnicodeDecodeError\<close>, and a file that may not be
  opened makes it raise \<^verbatim>\<open>PermissionError\<close>: only \<^verbatim>\<open>FileNotFoundError\<close> and
  \<^verbatim>\<open>json.JSONDecodeError\<close> are caught.
\<close>

theorem load_state_raises_on_corrupt_content:
  "\<forall>conv. load_state conv None (Some (Inr (JArr []))) CONFIG = Inl AttributeError \<and>
          load_state conv None (Some (Inr (JObj [(''last_processed_block'', JNull)]))) CONFIG
            = Inl TypeError \<and>
          load_state conv None (Some (Inl UnicodeDecodeError)) CONFIG = Inl UnicodeDecodeError \<and>
          load_state conv (Some PermissionError) (checkpoint_file 5) CONFIG = Inl PermissionError"
  by (simp add: load_state_def read_state_def state_get_def py_int_def)

text \<open>
  C9. A write that succeeds leaves the object \<^verbatim>\<open>{"last_processed_block": h}\<close> in the
  file, whatever the file held, and loading that file returns \<open>h\<close>, for every height
  \<open>h\<close> and every configured start block.
\<close>

theorem checkpoint_roundtrip:
  "save_state Saved h f = (None, checkpoint_file h) \<and>
   checkpoint_file h = Some (Inr (JObj [(''last_processed_block'', JInt h)])) \<and>
   load_state conv None (snd (save_state Saved h f)) cfg = Inr h"
  by (simp add: save_state_def checkpoint_file_def load_state_def read_state_def state_get_def
      py_int_def)

section \<open>Merging configurations\<close>

subsection \<open>The merged dictionary, key by key and path by path\<close>

lemma wf_dict_distinct: "wf_dict d \<Longrightarrow> distinct (map fst d)"
  by (simp add: wf_dict.simps)

lemma wf_dict_sub: "wf_dict d \<Longrightarrow> map_of d k = Some (Dict d') \<Longrightarrow> wf_dict d'"
  by (subst (asm) wf_dict.simps) (force dest: map_of_SomeD)

lemma map_of_deep_merge:
  assumes "distinct (map fst override)"
  shows "map_of (deep_merge base override) k =
           (case map_of override k of
              None \<Rightarrow> map_of base k
            | Some (Leaf x) \<Rightarrow> Some (Leaf x)
            | Some (Dict v) \<Rightarrow>
                (case map_of base k of
                   Some (Dict m) \<Rightarrow> Some (Dict (deep_merge m v))
                 | _ \<Rightarrow> Some (Dict v)))"
  using assms
proof (induction override arbitrary: base)
  case Nil
  show ?case by simp
next
  case (Cons a override)
  obtain key c where a: "a = (key, c)" by (cases a)
  from Cons.prems a have d: "distinct (map fst override)" and nk: "map_of override key = None"
    by (auto simp: map_of_eq_None_iff)
  define new where "new = (case c of Leaf x \<Rightarrow> Leaf x
      | Dict v \<Rightarrow> (case map_of base key of Some (Dict m) \<Rightarrow> Dict (deep_merge m v) | _ \<Rightarrow> Dict v))"
  have step: "deep_merge base (a # override) = deep_merge (AList.update key new base) override"
    by (simp add: a new_def split: cfg.splits option.splits)
  have "map_of (deep_merge base (a # override)) k =
          (case map_of override k of
              None \<Rightarrow> ((map_of base)(key \<mapsto> new)) k
            | Some (Leaf x) \<Rightarrow> Some (Leaf x)
            | Some (Dict v) \<Rightarrow>
                (case ((map_of base)(key \<mapsto> new)) k of
                   Some (Dict m) \<Rightarrow> Some (Dict (deep_merge m v))
                 | _ \<Rightarrow> Some (Dict v)))"
    unfolding step by (simp only: Cons.IH [OF d] update_conv')
  also have "\<dots> = (case map_of (a # override) k of
              None \<Rightarrow> map_of base k
            | Some (Leaf x) \<Rightarrow> Some (Leaf x)
            | Some (Dict v) \<Rightarrow>
                (case map_of base k of
                   Some (Dict m) \<Rightarrow> Some (Dict (deep_merge m v))
                 | _ \<Rightarrow> Some (Dict v)))"
  proof (cases "k = key")
    case True
    then show ?thesis using nk
      by (simp add: a new_def split: cfg.splits option.splits)
  next
    case False
    then show ?thesis by (simp add: a cong: option.case_cong cfg.case_cong)
  qed
  finally show ?case .
qed

lemma get_path_deep_merge:
  assumes "wf_dict override" and "p \<noteq> []"
  shows "get_path (deep_merge base override) p =
           (case get_path override p of
              Some (Leaf x) \<Rightarrow> Some (Leaf x)
            | Some (Dict v) \<Rightarrow>
                (case get_path base p of
                   Some (Dict m) \<Rightarrow> Some (Dict (deep_merge m v))
                 | _ \<Rightarrow> Some (Dict v))
            | None \<Rightarrow> if blocked override p then None else get_path base p)"
  using assms
proof (induction p arbitrary: base override)
  case Nil
  then show ?case by simp
next
  case (Cons k p)
  note m = map_of_deep_merge [OF wf_dict_distinct [OF Cons.prems(1)], of base k]
  show ?case
  proof (cases "p = []")
    case True
    then show ?thesis by (simp add: m split: option.splits cfg.splits)
  next
    case ne: False
    then obtain k' p' where p: "p = k' # p'" by (cases p) auto
    have g: "get_path d (k # p) = (case map_of d k of Some (Dict d') \<Rightarrow> get_path d' p | _ \<Rightarrow> None)"
      for d :: "'a dict"
      unfolding p by simp
    have bl: "blocked d (k # p) = (case map_of d k of Some (Leaf x) \<Rightarrow> True
        | Some (Dict d') \<Rightarrow> blocked d' p | None \<Rightarrow> False)" for d :: "'a dict"
      unfolding p by simp
    show ?thesis
    proof (cases "map_of override k")
      case None
      then show ?thesis using m by (simp add: g bl)
    next
      case (Some c)
      show ?thesis
      proof (cases c)
        case (Leaf x)
        then show ?thesis using m Some by (simp add: g bl)
      next
        case (Dict v)
        note wf = wf_dict_sub [OF Cons.prems(1) Some [unfolded Dict]]
        show ?thesis
        proof (cases "\<exists>bd. map_of base k = Some (Dict bd)")
          case True
          then obtain bd where bd: "map_of base k = Some (Dict bd)" by blast
          with m Some Dict have "map_of (deep_merge base override) k = Some (Dict (deep_merge bd v))"
            by simp
          then show ?thesis using Cons.IH [OF wf ne, of bd] Some Dict bd
            by (simp add: g bl cong: option.case_cong cfg.case_cong)
        next
          case False
          with m Some Dict have "map_of (deep_merge base override) k = Some (Dict v)"
            by (auto split: option.splits cfg.splits)
          moreover have "get_path base (k # p) = None" using False
            by (auto simp: g split: option.splits cfg.splits)
          ultimately show ?thesis using Some Dict
            by (auto simp: g bl split: option.splits cfg.splits)
        qed
      qed
    qed
  qed
qed

subsection \<open>Environment variables\<close>

lemma split_dunder_not_Nil: "split_dunder seg s \<noteq> []"
  by (induction seg s rule: split_dunder.induct) auto

lemma env_path_not_Nil: "env_path pre key \<noteq> []"
  by (simp add: env_path_def split_dunder_not_Nil)

lemma get_path_Nil_dict: "get_path [] p = None"
  by (induction "[] :: 'a dict" p rule: get_path.induct) auto

lemma get_path_Cons2:
  "p \<noteq> [] \<Longrightarrow> get_path d (k # p) =
     (case map_of d k of Some (Dict d') \<Rightarrow> get_path d' p | _ \<Rightarrow> None)"
  by (cases p) auto

lemma set_path_Cons2:
  "p \<noteq> [] \<Longrightarrow> set_path d (k # p) x =
     (case map_of d k of
        None \<Rightarrow> (case set_path [] p x of Inl e \<Rightarrow> Inl e | Inr d' \<Rightarrow> Inr (AList.update k (Dict d') d))
      | Some (Dict sub) \<Rightarrow>
          (case set_path sub p x of Inl e \<Rightarrow> Inl e | Inr d' \<Rightarrow> Inr (AList.update k (Dict d') d))
      | Some (Leaf y) \<Rightarrow> Inl TypeError)"
  by (cases p) auto

lemma set_path_get:
  "set_path d p x = Inr d' \<Longrightarrow> get_path d' p = Some (Leaf x)"
proof (induction d p x arbitrary: d' rule: set_path.induct)
  case (1 d x)
  then show ?case by simp
next
  case (2 d k x)
  then show ?case by (auto simp: update_conv')
next
  case (3 d k v va x)
  then show ?case
    by (auto simp: update_conv' split: option.splits cfg.splits sum.splits)
qed

lemma set_path_other:
  assumes "set_path d q x = Inr d'" and "\<not> prefix p q" and "\<not> prefix q p"
  shows "get_path d' p = get_path d p"
  using assms
proof (induction d q x arbitrary: d' p rule: set_path.induct)
  case (1 d x)
  then show ?case by simp
next
  case (2 d k x)
  from "2.prems" obtain k' p' where p: "p = k' # p'" and ne: "k' \<noteq> k"
    by (cases p) auto
  from "2.prems"(1) have d': "d' = AList.update k (Leaf x) d" by simp
  show ?case
  proof (cases "p' = []")
    case True
    then show ?thesis using ne by (simp add: p d' update_conv')
  next
    case False
    then show ?thesis using ne by (simp add: p d' get_path_Cons2 update_conv')
  qed
next
  case (3 d k v va x)
  let ?q = "v # va"
  from "3.prems" obtain k' p' where p: "p = k' # p'"
    by (cases p) auto
  show ?case
  proof (cases "k' = k")
    case False
    from "3.prems"(1) obtain sub where d': "d' = AList.update k sub d"
      by (auto split: option.splits cfg.splits sum.splits)
    show ?thesis
    proof (cases "p' = []")
      case True
      then show ?thesis using False by (simp add: p d' update_conv')
    next
      case ne: False
      then show ?thesis using False by (simp add: p d' get_path_Cons2 update_conv')
    qed
  next
    case True
    with "3.prems"(2,3) p have inc: "\<not> prefix p' ?q" "\<not> prefix ?q p'" by simp_all
    then have ne: "p' \<noteq> []" by auto
    show ?thesis
    proof (cases "map_of d k")
      case None
      with "3.prems"(1) obtain s' where s: "set_path [] ?q x = Inr s'"
        and d': "d' = AList.update k (Dict s') d"
        by (auto split: sum.splits)
      from "3.IH"(1) [OF None s inc] show ?thesis
        using None by (simp add: p True d' get_path_Cons2 [OF ne] update_conv' get_path_Nil_dict)
    next
      case (Some c)
      show ?thesis
      proof (cases c)
        case (Leaf y)
        with "3.prems"(1) Some show ?thesis by simp
      next
        case (Dict sub)
        with "3.prems"(1) Some obtain s' where s: "set_path sub ?q x = Inr s'"
          and d': "d' = AList.update k (Dict s') d"
          by (auto split: sum.splits)
        from "3.IH"(2) [OF Some Dict s inc] show ?thesis
          using Some Dict by (simp add: p True d' get_path_Cons2 [OF ne] update_conv')
      qed
    qed
  qed
qed

lemma wf_dict_Nil: "wf_dict []"
  by (simp add: wf_dict.simps)

lemma wf_dict_update:
  assumes "wf_dict d" and "case c of Leaf x \<Rightarrow> True | Dict d' \<Rightarrow> wf_dict d'"
  shows "wf_dict (AList.update k c d)"
proof -
  have sub: "set (map snd (AList.update k c d)) \<subseteq> insert c (set (map snd d))"
    by (induction d) auto
  have old: "\<forall>b \<in> set (map snd d). case b of Leaf x \<Rightarrow> True | Dict d' \<Rightarrow> wf_dict d'"
    using assms(1) by (subst (asm) wf_dict.simps) simp
  have "\<forall>b \<in> set (map snd (AList.update k c d)). case b of Leaf x \<Rightarrow> True | Dict d' \<Rightarrow> wf_dict d'"
  proof
    fix b
    assume "b \<in> set (map snd (AList.update k c d))"
    with sub have "b = c \<or> b \<in> set (map snd d)" by blast
    with old assms(2) show "case b of Leaf x \<Rightarrow> True | Dict d' \<Rightarrow> wf_dict d'" by blast
  qed
  moreover have "distinct (map fst (AList.update k c d))"
    using wf_dict_distinct [OF assms(1)] by (rule distinct_update)
  ultimately show ?thesis by (subst wf_dict.simps) blast
qed

lemma set_path_wf:
  "set_path d p x = Inr d' \<Longrightarrow> wf_dict d \<Longrightarrow> wf_dict d'"
proof (induction d p x arbitrary: d' rule: set_path.induct)
  case (1 d x)
  then show ?case by simp
next
  case (2 d k x)
  then show ?case by (auto intro: wf_dict_update)
next
  case (3 d k v va x)
  show ?case
  proof (cases "map_of d k")
    case None
    with "3.prems"(1) obtain s' where s: "set_path [] (v # va) x = Inr s'"
      and d': "d' = AList.update k (Dict s') d"
      by (auto split: sum.splits)
    from "3.IH"(1) [OF None s wf_dict_Nil] "3.prems"(2) show ?thesis
      by (simp add: d' wf_dict_update)
  next
    case (Some c)
    show ?thesis
    proof (cases c)
      case (Leaf y)
      with "3.prems"(1) Some show ?thesis by simp
    next
      case (Dict sub)
      with "3.prems"(1) Some obtain s' where s: "set_path sub (v # va) x = Inr s'"
        and d': "d' = AList.update k (Dict s') d"
        by (auto split: sum.splits)
      from "3.IH"(2) [OF Some Dict s wf_dict_sub [OF "3.prems"(2) Some [unfolded Dict]]]
        "3.prems"(2) show ?thesis
        by (simp add: d' wf_dict_update)
    qed
  qed
qed

lemma load_from_env_wf:
  "load_from_env py pre environ config = Inr c \<Longrightarrow> wf_dict config \<Longrightarrow> wf_dict c"
proof (induction environ arbitrary: config)
  case Nil
  then show ?case by simp
next
  case (Cons kv environ)
  obtain key v where kv: "kv = (key, v)" by (cases kv)
  show ?case
  proof (cases "startswith key pre")
    case True
    with Cons.prems(1) kv obtain c1 where
      s: "set_path config (env_path pre key) (parse_value py v) = Inr c1"
      and r: "load_from_env py pre environ c1 = Inr c"
      by (auto split: sum.splits)
    from Cons.IH [OF r set_path_wf [OF s Cons.prems(2)]] show ?thesis .
  next
    case False
    with Cons.prems kv Cons.IH show ?thesis by simp
  qed
qed

lemma load_from_env_keeps:
  assumes "load_from_env py pre environ config = Inr c"
    and "\<forall>(key, v) \<in> set environ. startswith key pre \<longrightarrow>
           \<not> prefix p (env_path pre key) \<and> \<not> prefix (env_path pre key) p"
  shows "get_path c p = get_path config p"
  using assms
proof (induction environ arbitrary: config)
  case Nil
  then show ?case by simp
next
  case (Cons kv environ)
  obtain key v where kv: "kv = (key, v)" by (cases kv)
  from Cons.prems(2) have rest: "\<forall>(key, v) \<in> set environ. startswith key pre \<longrightarrow>
           \<not> prefix p (env_path pre key) \<and> \<not> prefix (env_path pre key) p" by simp
  show ?case
  proof (cases "startswith key pre")
    case True
    with Cons.prems(1) kv obtain c1 where
      s: "set_path config (env_path pre key) (parse_value py v) = Inr c1"
      and r: "load_from_env py pre environ c1 = Inr c"
      by (auto split: sum.splits)
    from Cons.prems(2) kv True have "\<not> prefix p (env_path pre key)" "\<not> prefix (env_path pre key) p"
      by simp_all
    from set_path_other [OF s this] Cons.IH [OF r rest] show ?thesis by simp
  next
    case False
    with Cons.prems(1) kv Cons.IH [OF _ rest] show ?thesis by simp
  qed
qed

lemma load_from_env_sets:
  assumes "load_from_env py pre (before @ (key, v) # after) config = Inr c"
    and "startswith key pre"
    and "\<forall>(key', v') \<in> set after. startswith key' pre \<longrightarrow>
           \<not> prefix (env_path pre key) (env_path pre key') \<and>
           \<not> prefix (env_path pre key') (env_path pre key)"
  shows "get_path c (env_path pre key) = Some (Leaf (parse_value py v))"
  using assms(1)
proof (induction before arbitrary: config)
  case Nil
  with assms(2) obtain c1 where
    s: "set_path config (env_path pre key) (parse_value py v) = Inr c1"
    and r: "load_from_env py pre after c1 = Inr c"
    by (auto split: sum.splits)
  from load_from_env_keeps [OF r assms(3)] set_path_get [OF s] show ?case by simp
next
  case (Cons kv before)
  obtain key' v' where kv: "kv = (key', v')" by (cases kv)
  from Cons.prems kv obtain c1 where "load_from_env py pre (before @ (key, v) # after) c1 = Inr c"
    by (auto split: sum.splits if_splits)
  from Cons.IH [OF this] show ?case .
qed

subsection \<open>The merge leaves the store it found\<close>

lemma frame:
  "merge_items n h m items = Inr h' \<Longrightarrow> m < length h \<Longrightarrow>
     length h \<le> length h' \<and> (\<forall>a < length h. a \<noteq> m \<longrightarrow> h' ! a = h ! a)"
  "deep_merge_h n h b ov = Inr (r, h'') \<Longrightarrow>
     r = length h \<and> length h < length h'' \<and> (\<forall>a < length h. h'' ! a = h ! a)"
proof (induction n h m items and n h b ov arbitrary: h' and r h'' rule: merge_items_deep_merge_h.induct)
  case (1 n h m)
  then show ?case by simp
next
  case (2 n h m key x items)
  let ?h = "h[m := AList.update key (Scalar x) (h ! m)]"
  from "2.prems" have "merge_items n ?h m items = Inr h'" "m < length ?h" by simp_all
  from "2.IH" [OF this]
  have "length h \<le> length h'" "\<forall>a < length h. a \<noteq> m \<longrightarrow> h' ! a = ?h ! a" by simp_all
  then show ?case by simp
next
  case (3 n h m key a items)
  show ?case
  proof (cases "map_of (h ! m) key")
    case None
    let ?h = "h[m := AList.update key (Ref a) (h ! m)]"
    from "3.prems" None have "merge_items n ?h m items = Inr h'" "m < length ?h" by simp_all
    from "3.IH"(1) [OF None this]
    have "length h \<le> length h'" "\<forall>a < length h. a \<noteq> m \<longrightarrow> h' ! a = ?h ! a" by simp_all
    then show ?thesis by simp
  next
    case (Some v)
    show ?thesis
    proof (cases v)
      case (Scalar y)
      let ?h = "h[m := AList.update key (Ref a) (h ! m)]"
      from "3.prems" Some Scalar have "merge_items n ?h m items = Inr h'" "m < length ?h"
        by simp_all
      from "3.IH"(2) [OF Some Scalar this]
      have "length h \<le> length h'" "\<forall>a < length h. a \<noteq> m \<longrightarrow> h' ! a = ?h ! a" by simp_all
      then show ?thesis by simp
    next
      case (Ref c)
      from "3.prems"(1) Some Ref obtain r h1 where d: "deep_merge_h n h c a = Inr (r, h1)"
        and rest: "merge_items n (h1[m := AList.update key (Ref r) (h1 ! m)]) m items = Inr h'"
        by (cases "deep_merge_h n h c a") auto
      let ?h = "h1[m := AList.update key (Ref r) (h1 ! m)]"
      from "3.IH"(3) [OF Some Ref d] have f1: "length h < length h1" "\<forall>a < length h. h1 ! a = h ! a"
        by simp_all
      with "3.prems"(2) have "m < length ?h" by simp
      from "3.IH"(4) [OF Some Ref d refl rest this]
      have f2: "length h1 \<le> length h'" "\<forall>a < length h1. a \<noteq> m \<longrightarrow> h' ! a = ?h ! a"
        by simp_all
      have "h' ! a = h ! a" if "a < length h" "a \<noteq> m" for a
      proof -
        from that f1 have "a < length h1" by simp
        with f2 that have "h' ! a = ?h ! a" by blast
        also have "\<dots> = h1 ! a" using that by simp
        also have "\<dots> = h ! a" using f1 that by blast
        finally show ?thesis .
      qed
      with f1 f2 show ?thesis by simp
    qed
  qed
next
  case (4 h b ov)
  then show ?case by simp
next
  case (5 n h b ov)
  from "5.prems" obtain h1 where m: "merge_items n (h @ [h ! b]) (length h) (h ! ov) = Inr h1"
    and r: "r = length h" "h'' = h1"
    by (cases "merge_items n (h @ [h ! b]) (length h) (h ! ov)") auto
  have "length h < length (h @ [h ! b])" by simp
  from "5.IH" [OF m this]
  have f: "length h + 1 \<le> length h1" "\<forall>a < length h + 1. a \<noteq> length h \<longrightarrow> h1 ! a = (h @ [h ! b]) ! a"
    by simp_all
  have "h1 ! a = h ! a" if "a < length h" for a
    using f(2) that by (simp add: nth_append)
  with f(1) r show ?case by simp
qed

lemma repr_transfer:
  assumes "A \<subseteq> B" and "\<forall>a \<in> A. a < length h \<longrightarrow> a < length h' \<and> h' ! a = h ! a"
  shows "repr_val A h v c \<Longrightarrow> repr_val B h' v c"
    and "repr_obj A h items d \<Longrightarrow> repr_obj B h' items d"
proof (induction rule: repr_val_repr_obj.inducts)
  case (repr_Scalar x)
  show ?case by (rule repr_val_repr_obj.repr_Scalar)
next
  case (repr_Ref a d)
  from repr_Ref(1,2) assms have "a \<in> B" "a < length h'" "h' ! a = h ! a" by auto
  with repr_Ref show ?case by (simp add: repr_val_repr_obj.repr_Ref)
next
  case repr_Nil
  show ?case by (rule repr_val_repr_obj.repr_Nil)
next
  case (repr_Cons v c items d k)
  then show ?case by (simp add: repr_val_repr_obj.repr_Cons)
qed

lemma repr_obj_map_of:
  assumes "repr_obj A h items d"
  shows "(map_of items k = None \<longrightarrow> map_of d k = None) \<and>
         (\<forall>v. map_of items k = Some v \<longrightarrow> (\<exists>c. map_of d k = Some c \<and> repr_val A h v c))"
  using assms
proof (induction items arbitrary: d)
  case Nil
  then show ?case by (auto elim: repr_NilE)
next
  case (Cons kv items)
  from Cons.prems obtain k' v c d' where kv: "kv = (k', v)" and d: "d = (k', c) # d'"
    and v: "repr_val A h v c" and r: "repr_obj A h items d'"
    by (auto elim: repr_ConsE)
  from Cons.IH [OF r] v show ?case by (auto simp: kv d)
qed

lemma repr_obj_update:
  assumes "repr_obj A h items d" and "repr_val A h v c"
  shows "repr_obj A h (AList.update k v items) (AList.update k c d)"
  using assms(1)
proof (induction items arbitrary: d)
  case Nil
  then have "d = []" by (auto elim: repr_NilE)
  with assms(2) show ?case by (simp add: repr_Cons repr_Nil)
next
  case (Cons kv items)
  from Cons.prems obtain k' v' c' d' where kv: "kv = (k', v')" and d: "d = (k', c') # d'"
    and v: "repr_val A h v' c'" and r: "repr_obj A h items d'"
    by (auto elim: repr_ConsE)
  show ?case
  proof (cases "k' = k")
    case True
    with assms(2) r show ?thesis by (simp add: kv d repr_Cons)
  next
    case False
    with Cons.IH [OF r] v show ?thesis by (simp add: kv d repr_Cons)
  qed
qed


lemma agree_update:
  assumes "m \<notin> A"
  shows "\<forall>a \<in> A. a < length h \<longrightarrow> a < length (h[m := x]) \<and> h[m := x] ! a = h ! a"
proof (intro ballI impI)
  fix a
  assume "a \<in> A" "a < length h"
  with assms have "a \<noteq> m" by blast
  with \<open>a < length h\<close> show "a < length (h[m := x]) \<and> h[m := x] ! a = h ! a" by simp
qed

lemma refine:
  "merge_items n h m items = Inr h' \<Longrightarrow> m < length h \<Longrightarrow> m \<notin> A \<Longrightarrow> A \<subseteq> {..<length h} \<Longrightarrow>
     repr_obj A h (h ! m) md \<Longrightarrow> repr_obj A h items od \<Longrightarrow>
     repr_obj (A \<union> {length h..<length h'}) h' (h' ! m) (deep_merge md od)"
  "deep_merge_h n h b ov = Inr (r, h'') \<Longrightarrow> A \<subseteq> {..<length h} \<Longrightarrow>
     repr_val A h (Ref b) (Dict bd) \<Longrightarrow> repr_val A h (Ref ov) (Dict od) \<Longrightarrow>
     repr_val (A \<union> {length h..<length h''}) h'' (Ref r) (Dict (deep_merge bd od))"
proof (induction n h m items and n h b ov arbitrary: h' A md od and r h'' A bd od
    rule: merge_items_deep_merge_h.induct)
  case (1 n h m)
  from "1.prems"(6) have "od = []" by (auto elim: repr_NilE)
  moreover from "1.prems"(1) have "h' = h" by simp
  ultimately show ?case using "1.prems"(5) by simp
next
  case (2 n h m key x items)
  let ?h = "h[m := AList.update key (Scalar x) (h ! m)]"
  from "2.prems"(6) obtain od' where od: "od = (key, Leaf x) # od'"
    and items: "repr_obj A h items od'"
    by (auto elim!: repr_ConsE repr_ScalarE)
  have agree: "\<forall>a \<in> A. a < length h \<longrightarrow> a < length ?h \<and> ?h ! a = h ! a"
    by (rule agree_update [OF "2.prems"(3)])
  have m: "repr_obj A ?h (?h ! m) (AList.update key (Leaf x) md)"
    using repr_obj_update [OF repr_transfer(2) [OF subset_refl agree "2.prems"(5)] repr_Scalar]
      "2.prems"(2) by simp
  have rest: "merge_items n ?h m items = Inr h'" using "2.prems"(1) by simp
  from "2.IH" [OF rest _ "2.prems"(3) _ m repr_transfer(2) [OF subset_refl agree items]]
    "2.prems"(2,4)
  show ?case by (simp add: od)
next
  case (3 n h m key a items)
  from "3.prems"(6) obtain v od' where od: "od = (key, Dict v) # od'"
    and a: "repr_val A h (Ref a) (Dict v)" and items: "repr_obj A h items od'"
    by (auto elim!: repr_ConsE repr_RefE intro: repr_Ref)
  note look = repr_obj_map_of [OF "3.prems"(5), of key]
  show ?case
  proof (cases "map_of (h ! m) key")
    case None
    let ?h = "h[m := AList.update key (Ref a) (h ! m)]"
    from look None have mdk: "map_of md key = None" by simp
    have agree: "\<forall>a \<in> A. a < length h \<longrightarrow> a < length ?h \<and> ?h ! a = h ! a"
      by (rule agree_update [OF "3.prems"(3)])
    have m: "repr_obj A ?h (?h ! m) (AList.update key (Dict v) md)"
      using repr_obj_update [OF repr_transfer(2) [OF subset_refl agree "3.prems"(5)]
          repr_transfer(1) [OF subset_refl agree a]] "3.prems"(2) by simp
    have rest: "merge_items n ?h m items = Inr h'" using "3.prems"(1) None by simp
    from "3.IH"(1) [OF None rest _ "3.prems"(3) _ m repr_transfer(2) [OF subset_refl agree items]]
      "3.prems"(2,4)
    show ?thesis by (simp add: od mdk)
  next
    case (Some w)
    show ?thesis
    proof (cases w)
      case (Scalar y)
      let ?h = "h[m := AList.update key (Ref a) (h ! m)]"
      from look Some Scalar have mdk: "map_of md key = Some (Leaf y)"
        by (auto elim: repr_ScalarE)
      have agree: "\<forall>a \<in> A. a < length h \<longrightarrow> a < length ?h \<and> ?h ! a = h ! a"
        by (rule agree_update [OF "3.prems"(3)])
      have m: "repr_obj A ?h (?h ! m) (AList.update key (Dict v) md)"
        using repr_obj_update [OF repr_transfer(2) [OF subset_refl agree "3.prems"(5)]
            repr_transfer(1) [OF subset_refl agree a]] "3.prems"(2) by simp
      have rest: "merge_items n ?h m items = Inr h'" using "3.prems"(1) Some Scalar by simp
      from "3.IH"(2) [OF Some Scalar rest _ "3.prems"(3) _ m
          repr_transfer(2) [OF subset_refl agree items]] "3.prems"(2,4)
      show ?thesis by (simp add: od mdk)
    next
      case (Ref c)
      from look Some Ref obtain mc where mdk: "map_of md key = Some (Dict mc)"
        and c: "repr_val A h (Ref c) (Dict mc)"
        by (auto elim!: repr_RefE intro: repr_Ref)
      from "3.prems"(1) Some Ref obtain r h1 where d: "deep_merge_h n h c a = Inr (r, h1)"
        and rest: "merge_items n (h1[m := AList.update key (Ref r) (h1 ! m)]) m items = Inr h'"
        by (cases "deep_merge_h n h c a") auto
      let ?h = "h1[m := AList.update key (Ref r) (h1 ! m)]"
      let ?A = "A \<union> {length h..<length h1}"
      from frame(2) [OF d] have f1: "length h < length h1" "\<forall>a < length h. h1 ! a = h ! a"
        by simp_all
      from "3.IH"(3) [OF Some Ref d "3.prems"(4) c a]
      have r: "repr_val ?A h1 (Ref r) (Dict (deep_merge mc v))" .
      have mA: "m \<notin> ?A" using "3.prems"(2,3) by simp
      have agree1: "\<forall>a \<in> ?A. a < length h1 \<longrightarrow> a < length ?h \<and> ?h ! a = h1 ! a"
        by (rule agree_update [OF mA])
      have agree0: "\<forall>a \<in> A. a < length h \<longrightarrow> a < length ?h \<and> ?h ! a = h ! a"
      proof (intro ballI impI)
        fix a
        assume "a \<in> A" "a < length h"
        with agree1 f1 show "a < length ?h \<and> ?h ! a = h ! a" by auto
      qed
      have sub: "A \<subseteq> ?A" by blast
      have hm: "?h ! m = AList.update key (Ref r) (h ! m)"
        using "3.prems"(2) f1 by simp
      have m: "repr_obj ?A ?h (?h ! m) (AList.update key (Dict (deep_merge mc v)) md)"
        unfolding hm
        by (rule repr_obj_update [OF repr_transfer(2) [OF sub agree0 "3.prems"(5)]
              repr_transfer(1) [OF subset_refl agree1 r]])
      have len: "m < length ?h" "?A \<subseteq> {..<length ?h}"
        using "3.prems"(2,4) f1 by auto
      from "3.IH"(4) [OF Some Ref d refl rest len(1) mA len(2) m
          repr_transfer(2) [OF sub agree0 items]]
      have "repr_obj (?A \<union> {length ?h..<length h'}) h' (h' ! m)
              (deep_merge (AList.update key (Dict (deep_merge mc v)) md) od')" .
      moreover from frame(1) [OF rest len(1)] have "length h1 \<le> length h'" by simp
      with f1 have "?A \<union> {length ?h..<length h'} = A \<union> {length h..<length h'}" by auto
      ultimately show ?thesis by (simp add: od mdk)
    qed
  qed
next
  case (4 h b ov)
  then show ?case by simp
next
  case (5 n h b ov)
  let ?h = "h @ [h ! b]"
  from "5.prems"(1) obtain h1 where m: "merge_items n ?h (length h) (h ! ov) = Inr h1"
    and r: "r = length h" "h'' = h1"
    by (cases "merge_items n ?h (length h) (h ! ov)") auto
  from "5.prems"(3) have b: "b \<in> A" "b < length h" "repr_obj A h (h ! b) bd"
    by (auto elim: repr_RefE)
  from "5.prems"(4) have ov: "repr_obj A h (h ! ov) od"
    by (auto elim: repr_RefE)
  have agree: "\<forall>a \<in> A. a < length h \<longrightarrow> a < length ?h \<and> ?h ! a = h ! a"
    by (simp add: nth_append)
  have mA: "length h \<notin> A" using "5.prems"(2) by auto
  have mobj: "repr_obj A ?h (?h ! length h) bd"
    using repr_transfer(2) [OF subset_refl agree b(3)] by simp
  have sub: "A \<subseteq> {..<length ?h}" using "5.prems"(2) by auto
  from "5.IH" [OF m _ mA sub mobj repr_transfer(2) [OF subset_refl agree ov]]
  have res: "repr_obj (A \<union> {length ?h..<length h1}) h1 (h1 ! length h) (deep_merge bd od)"
    by simp
  from frame(1) [OF m] have len: "length h < length h1" by simp
  have "repr_obj (A \<union> {length h..<length h1}) h1 (h1 ! length h) (deep_merge bd od)"
    by (rule repr_transfer(2) [OF _ _ res]) auto
  with len show ?case unfolding r by (auto intro!: repr_Ref)
qed

subsection \<open>Precedence of the three sources\<close>

text \<open>
  C10. When \<^verbatim>\<open>load\<close> returns, its result is the merge of \<^verbatim>\<open>base.yaml\<close>, the
  environment's YAML file and the dictionary built from the environment variables, in
  that order. A variable with the prefix, not overridden by a later variable on a
  related path, puts its parsed value at the path got by stripping the prefix,
  lowercasing and splitting at double underscores. At every key path a leaf of the
  environment variables is the result's value; where they leave the path open, a leaf of
  the environment's file is; where both leave it open, the result has what \<^verbatim>\<open>base.yaml\<close>
  has. For any two dictionaries, \<^verbatim>\<open>_deep_merge\<close> puts the merge of the two sides where
  both hold a dictionary, the overriding dictionary where only the override holds one, and
  the overriding leaf where the override holds a leaf. Run on
  the store of dictionary objects, \<^verbatim>\<open>_deep_merge\<close> returns a fresh object and leaves
  every object that was there before the call as it was, the two arguments and all that
  they refer to included; that fresh object stands for the merge of the dictionaries that
  the two arguments stand for.
\<close>

theorem config_precedence:
  "(load py env_prefix base_file env_file environ = Inr final \<and>
    load_yaml_file base_file = Inr base_config \<and>
    load_yaml_file env_file = Inr env_config \<and> wf_dict env_config \<longrightarrow>
      (\<exists>env_vars.
         load_from_env py (env_prefix @ ''_'') environ [] = Inr env_vars \<and>
         final = deep_merge (deep_merge base_config env_config) env_vars \<and>
         (\<forall>before key v after.
            environ = before @ (key, v) # after \<and> startswith key (env_prefix @ ''_'') \<and>
            (\<forall>(key', v') \<in> set after. startswith key' (env_prefix @ ''_'') \<longrightarrow>
               \<not> prefix (env_path (env_prefix @ ''_'') key) (env_path (env_prefix @ ''_'') key') \<and>
               \<not> prefix (env_path (env_prefix @ ''_'') key') (env_path (env_prefix @ ''_'') key)) \<longrightarrow>
            get_path env_vars (env_path (env_prefix @ ''_'') key) =
              Some (Leaf (parse_value py v))) \<and>
         (\<forall>p x. get_path env_vars p = Some (Leaf x) \<longrightarrow> get_path final p = Some (Leaf x)) \<and>
         (\<forall>p x. p \<noteq> [] \<and> get_path env_vars p = None \<and> \<not> blocked env_vars p \<and>
                get_path env_config p = Some (Leaf x) \<longrightarrow>
                get_path final p = Some (Leaf x)) \<and>
         (\<forall>p. p \<noteq> [] \<and> get_path env_vars p = None \<and> \<not> blocked env_vars p \<and>
              get_path env_config p = None \<and> \<not> blocked env_config p \<longrightarrow>
              get_path final p = get_path base_config p))) \<and>
   (wf_dict override \<longrightarrow>
      (\<forall>p v m. get_path override p = Some (Dict v) \<and> get_path base p = Some (Dict m) \<longrightarrow>
         get_path (deep_merge base override) p = Some (Dict (deep_merge m v))) \<and>
      (\<forall>p v. get_path override p = Some (Dict v) \<and> (\<forall>m. get_path base p \<noteq> Some (Dict m)) \<longrightarrow>
         get_path (deep_merge base override) p = Some (Dict v)) \<and>
      (\<forall>p x. get_path override p = Some (Leaf x) \<longrightarrow>
         get_path (deep_merge base override) p = Some (Leaf x))) \<and>
   (deep_merge_h n h b ov = Inr (r, h') \<longrightarrow>
      r = length h \<and> length h < length h' \<and> (\<forall>a < length h. h' ! a = h ! a)) \<and>
   (deep_merge_h n h b ov = Inr (r, h') \<and> A \<subseteq> {..<length h} \<and>
    repr_val A h (Ref b) (Dict bd) \<and> repr_val A h (Ref ov) (Dict od) \<longrightarrow>
      repr_val (A \<union> {length h..<length h'}) h' (Ref r) (Dict (deep_merge bd od)))"
proof (intro conjI impI)
  assume a: "load py env_prefix base_file env_file environ = Inr final \<and>
    load_yaml_file base_file = Inr base_config \<and>
    load_yaml_file env_file = Inr env_config \<and> wf_dict env_config"
  let ?pre = "env_prefix @ ''_''"
  let ?m = "deep_merge base_config env_config"
  from a obtain env_vars where ev: "load_from_env py ?pre environ [] = Inr env_vars"
    and final: "final = deep_merge ?m env_vars"
    by (auto simp: load_def Let_def split: sum.splits)
  from a have wfe: "wf_dict env_config" by simp
  have wfv: "wf_dict env_vars" by (rule load_from_env_wf [OF ev wf_dict_Nil])
  note top = get_path_deep_merge [OF wfv, of _ ?m]
  note mid = get_path_deep_merge [OF wfe, of _ base_config]
  have vars: "get_path env_vars (env_path ?pre key) = Some (Leaf (parse_value py v))"
    if "environ = before @ (key, v) # after" "startswith key ?pre"
      "\<forall>(key', v') \<in> set after. startswith key' ?pre \<longrightarrow>
         \<not> prefix (env_path ?pre key) (env_path ?pre key') \<and>
         \<not> prefix (env_path ?pre key') (env_path ?pre key)"
    for before key v after
    using load_from_env_sets [OF ev [unfolded that(1)] that(2,3)] .
  have p1: "get_path final p = Some (Leaf x)" if "get_path env_vars p = Some (Leaf x)" for p x
  proof -
    from that have "p \<noteq> []" by auto
    from top [OF this] that show ?thesis by (simp add: final)
  qed
  have p2: "get_path final p = Some (Leaf x)"
    if "p \<noteq> []" "get_path env_vars p = None" "\<not> blocked env_vars p"
      "get_path env_config p = Some (Leaf x)" for p x
    using top [OF that(1)] mid [OF that(1)] that by (simp add: final)
  have p3: "get_path final p = get_path base_config p"
    if "p \<noteq> []" "get_path env_vars p = None" "\<not> blocked env_vars p"
      "get_path env_config p = None" "\<not> blocked env_config p" for p
    using top [OF that(1)] mid [OF that(1)] that by (simp add: final)
  from ev final vars p1 p2 p3
  show "\<exists>env_vars.
         load_from_env py ?pre environ [] = Inr env_vars \<and>
         final = deep_merge (deep_merge base_config env_config) env_vars \<and>
         (\<forall>before key v after.
            environ = before @ (key, v) # after \<and> startswith key ?pre \<and>
            (\<forall>(key', v') \<in> set after. startswith key' ?pre \<longrightarrow>
               \<not> prefix (env_path ?pre key) (env_path ?pre key') \<and>
               \<not> prefix (env_path ?pre key') (env_path ?pre key)) \<longrightarrow>
            get_path env_vars (env_path ?pre key) = Some (Leaf (parse_value py v))) \<and>
         (\<forall>p x. get_path env_vars p = Some (Leaf x) \<longrightarrow> get_path final p = Some (Leaf x)) \<and>
         (\<forall>p x. p \<noteq> [] \<and> get_path env_vars p = None \<and> \<not> blocked env_vars p \<and>
                get_path env_config p = Some (Leaf x) \<longrightarrow>
                get_path final p = Some (Leaf x)) \<and>
         (\<forall>p. p \<noteq> [] \<and> get_path env_vars p = None \<and> \<not> blocked env_vars p \<and>
              get_path env_config p = None \<and> \<not> blocked env_config p \<longrightarrow>
              get_path final p = get_path base_config p)"
    by blast
next
  assume wf: "wf_dict override"
  show "\<forall>p v m. get_path override p = Some (Dict v) \<and> get_path base p = Some (Dict m) \<longrightarrow>
         get_path (deep_merge base override) p = Some (Dict (deep_merge m v))"
  proof (intro allI impI)
    fix p v m
    assume h: "get_path override p = Some (Dict v) \<and> get_path base p = Some (Dict m)"
    then have "p \<noteq> []" by auto
    from get_path_deep_merge [OF wf this, of base] h
    show "get_path (deep_merge base override) p = Some (Dict (deep_merge m v))" by simp
  qed
next
  assume wf: "wf_dict override"
  show "\<forall>p v. get_path override p = Some (Dict v) \<and> (\<forall>m. get_path base p \<noteq> Some (Dict m)) \<longrightarrow>
         get_path (deep_merge base override) p = Some (Dict v)"
  proof (intro allI impI)
    fix p v
    assume h: "get_path override p = Some (Dict v) \<and> (\<forall>m. get_path base p \<noteq> Some (Dict m))"
    then have "p \<noteq> []" by auto
    from get_path_deep_merge [OF wf this, of base] h
    show "get_path (deep_merge base override) p = Some (Dict v)"
      by (auto split: option.splits cfg.splits)
  qed
next
  assume wf: "wf_dict override"
  show "\<forall>p x. get_path override p = Some (Leaf x) \<longrightarrow>
         get_path (deep_merge base override) p = Some (Leaf x)"
  proof (intro allI impI)
    fix p x
    assume h: "get_path override p = Some (Leaf x)"
    then have "p \<noteq> []" by auto
    from get_path_deep_merge [OF wf this, of base] h
    show "get_path (deep_merge base override) p = Some (Leaf x)" by simp
  qed
next
  assume "deep_merge_h n h b ov = Inr (r, h')"
  from frame(2) [OF this] show "r = length h" "length h < length h'"
    "\<forall>a < length h. h' ! a = h ! a" by simp_all
next
  assume "deep_merge_h n h b ov = Inr (r, h') \<and> A \<subseteq> {..<length h} \<and>
    repr_val A h (Ref b) (Dict bd) \<and> repr_val A h (Ref ov) (Dict od)"
  then show "repr_val (A \<union> {length h..<length h'}) h' (Ref r) (Dict (deep_merge bd od))"
    using refine(2) by blast
qed


lemma two_dicts_base:
  "repr_val {0, 1, 2, 3} two_dicts (Ref 0)
     (Dict [(''name'', Leaf (VStr ''app'')),
            (''database'', Dict [(''host'', Leaf (VStr ''localhost'')),
                                (''port'', Leaf (VInt 3306))])])"
  by (auto intro!: repr_val_repr_obj.intros simp: two_dicts_def)

lemma two_dicts_override:
  "repr_val {0, 1, 2, 3} two_dicts (Ref 2)
     (Dict [(''database'', Dict [(''port'', Leaf (VInt 5432))]),
            (''debug'', Leaf (VBool True))])"
  by (auto intro!: repr_val_repr_obj.intros simp: two_dicts_def)

theorem config_precedence_witness:
  "load numerals_only ''APP'' base_yaml development_yaml process_environment =
     Inr [(''database'', Dict [(''host'', Leaf (VStr ''dev.db'')), (''port'', Leaf (VInt 5432))]),
          (''debug'', Leaf (VBool True)), (''name'', Leaf (VStr ''app''))] \<and>
   wf_dict [(''database'', Dict [(''host'', Leaf (VStr ''dev.db''))])] \<and>
   env_path ''APP_'' ''APP_DATABASE__PORT'' = [''database'', ''port''] \<and>
   get_path [(''database'', Dict [(''host'', Leaf (VStr ''dev.db'')), (''port'', Leaf (VInt 5432))]),
             (''debug'', Leaf (VBool True)), (''name'', Leaf (VStr ''app''))]
            [''database'', ''port''] = Some (Leaf (VInt 5432)) \<and>
   deep_merge_h 2 two_dicts 0 2 =
     Inr (4, two_dicts @
             [[(''name'', Scalar (VStr ''app'')), (''database'', Ref 5),
               (''debug'', Scalar (VBool True))],
              [(''host'', Scalar (VStr ''localhost'')), (''port'', Scalar (VInt 5432))]]) \<and>
   repr_val ({0, 1, 2, 3} \<union> {4..<6})
     (two_dicts @
        [[(''name'', Scalar (VStr ''app'')), (''database'', Ref 5),
          (''debug'', Scalar (VBool True))],
         [(''host'', Scalar (VStr ''localhost'')), (''port'', Scalar (VInt 5432))]])
     (Ref 4)
     (Dict (deep_merge
        [(''name'', Leaf (VStr ''app'')),
         (''database'', Dict [(''host'', Leaf (VStr ''localhost'')), (''port'', Leaf (VInt 3306))])]
        [(''database'', Dict [(''port'', Leaf (VInt 5432))]), (''debug'', Leaf (VBool True))]))"
proof -
  let ?final = "[(''database'', Dict [(''host'', Leaf (VStr ''dev.db'')), (''port'', Leaf (VInt 5432))]),
          (''debug'', Leaf (VBool True)), (''name'', Leaf (VStr ''app''))]"
  let ?base = "[(''database'', Dict [(''host'', Leaf (VStr ''localhost'')), (''port'', Leaf (VInt 3306))]),
          (''debug'', Leaf (VBool False)), (''name'', Leaf (VStr ''app''))]"
  let ?dev = "[(''database'', Dict [(''host'', Leaf (VStr ''dev.db''))])]"
  let ?vars = "[(''database'', Dict [(''port'', Leaf (VInt 5432))]), (''debug'', Leaf (VBool True))]"
  let ?h' = "two_dicts @
             [[(''name'', Scalar (VStr ''app'')), (''database'', Ref 5),
               (''debug'', Scalar (VBool True))],
              [(''host'', Scalar (VStr ''localhost'')), (''port'', Scalar (VInt 5432))]]"
  let ?bd = "[(''name'', Leaf (VStr ''app'')),
         (''database'', Dict [(''host'', Leaf (VStr ''localhost'')), (''port'', Leaf (VInt 3306))])]"
  let ?od = "[(''database'', Dict [(''port'', Leaf (VInt 5432))]), (''debug'', Leaf (VBool True))]"
  have L: "load numerals_only ''APP'' base_yaml development_yaml process_environment = Inr ?final"
    by code_simp
  have Y: "load_yaml_file base_yaml = Inr ?base" "load_yaml_file development_yaml = Inr ?dev"
    by (simp_all add: load_yaml_file_def base_yaml_def development_yaml_def)
  have W: "wf_dict ?dev" by (simp add: wf_dict.simps)
  have V: "load_from_env numerals_only (''APP'' @ ''_'') process_environment [] = Inr ?vars"
    by code_simp
  have P: "env_path ''APP_'' ''APP_DATABASE__PORT'' = [''database'', ''port'']"
    by code_simp
  have G: "get_path ?vars [''database'', ''port''] = Some (Leaf (VInt 5432))" by simp
  have H: "deep_merge_h 2 two_dicts 0 2 = Inr (4, ?h')" by code_simp
  have len: "{0, 1, 2, 3} \<subseteq> {..<length two_dicts}" "length two_dicts = 4" "length ?h' = 6"
    by (simp_all add: two_dicts_def)
  note inst = config_precedence [where py = numerals_only and env_prefix = "''APP''"
      and base_file = base_yaml and env_file = development_yaml
      and environ = process_environment and final = ?final and base_config = ?base
      and env_config = ?dev and override = ?dev and base = ?base and n = 2 and h = two_dicts
      and b = 0 and ov = 2 and r = 4 and h' = ?h' and A = "{0, 1, 2, 3}" and bd = ?bd
      and od = ?od]
  note first = inst [THEN conjunct1, THEN mp, OF conjI [OF L conjI [OF Y(1) conjI [OF Y(2) W]]]]
  from first obtain env_vars where
    ev: "load_from_env numerals_only (''APP'' @ ''_'') process_environment [] = Inr env_vars"
    and win: "\<forall>p x. get_path env_vars p = Some (Leaf x) \<longrightarrow> get_path ?final p = Some (Leaf x)"
    by (elim exE conjE) (rule that, assumption+)
  from ev V have "env_vars = ?vars" by simp
  with G have "get_path env_vars [''database'', ''port''] = Some (Leaf (VInt 5432))"
    by (simp only:)
  from win [rule_format, OF this]
  have port: "get_path ?final [''database'', ''port''] = Some (Leaf (VInt 5432))" .
  note last = inst [THEN conjunct2, THEN conjunct2, THEN conjunct2, THEN mp,
      OF conjI [OF H conjI [OF len(1) conjI [OF two_dicts_base two_dicts_override]]]]
  have R: "repr_val ({0, 1, 2, 3} \<union> {4..<6}) ?h' (Ref 4) (Dict (deep_merge ?bd ?od))"
    using last unfolding len(2,3) .
  from L W P port H R show ?thesis by (intro conjI)
qed


end
